theory Spec2Isabelle
  imports Main
begin

section \<open>The subscription catalog of luna-service2 (subscription.c)\<close>

text \<open>
  A shallow embedding of \<^verbatim>\<open>src/subscription.c\<close>. C strings are \<open>string\<close>s, a pointer
  that may be \<^verbatim>\<open>NULL\<close> is an \<open>option\<close>, a \<^verbatim>\<open>GPtrArray\<close> of strings is a list, a
  \<^verbatim>\<open>GHashTable\<close> is a map. The \<^verbatim>\<open>_Subscription\<close> objects live in an explicit store
  (address to object), since the catalog and the local variables of a function hold
  pointers to the same object. Every call that leaves the file (the mutex, the message's
  reference count, the transport, the cancel callback) is appended to a trace.
  A function whose execution stops (a failed \<^verbatim>\<open>LS_ASSERT\<close>, a dereferenced
  \<^verbatim>\<open>NULL\<close> or dangling pointer) returns \<open>None\<close>.
\<close>

subsection \<open>C library: strncmp, strcmp, printf("%d")\<close>

text \<open>Only the sign of the result matters to the callers (they test \<open>= 0\<close>).\<close>

fun strncmp :: "string \<Rightarrow> string \<Rightarrow> nat \<Rightarrow> int" where
  "strncmp s1 s2 0 = 0"
| "strncmp [] [] (Suc n) = 0"
| "strncmp [] (c2 # r2) (Suc n) = -1"
| "strncmp (c1 # r1) [] (Suc n) = 1"
| "strncmp (c1 # r1) (c2 # r2) (Suc n) =
     (if c1 = c2 then strncmp r1 r2 n
      else if (of_char c1 :: nat) < of_char c2 then -1 else 1)"

fun strcmp :: "string \<Rightarrow> string \<Rightarrow> int" where
  "strcmp [] [] = 0"
| "strcmp [] (c2 # r2) = -1"
| "strcmp (c1 # r1) [] = 1"
| "strcmp (c1 # r1) (c2 # r2) =
     (if c1 = c2 then strcmp r1 r2
      else if (of_char c1 :: nat) < of_char c2 then -1 else 1)"

definition digit_char :: "nat \<Rightarrow> char" where
  "digit_char d = ''0123456789'' ! d"

fun string_of_nat :: "nat \<Rightarrow> string" where
  "string_of_nat n =
     (if n < 10 then [digit_char n]
      else string_of_nat (n div 10) @ [digit_char (n mod 10)])"

declare string_of_nat.simps [simp del]

text \<open>The text \<^verbatim>\<open>%d\<close> prints for a C \<^verbatim>\<open>int\<close>.\<close>

definition printf_d :: "int \<Rightarrow> string" where
  "printf_d i = (if i < 0 then CHR ''-'' # string_of_nat (nat (- i)) else string_of_nat (nat i))"

subsection \<open>Decimal texts\<close>

text \<open>
  The number a decimal text denotes, for the texts that denote one in the usual way: an
  optional minus sign, then digits, with no leading zero and no \<open>-0\<close>. The
  specification speaks of the token of a cancel message as a number and of the identifier
  as text; \<open>decimal_int\<close> reads the text back. It is not part of
  \<^verbatim>\<open>subscription.c\<close>.
\<close>

definition digit_value :: "char \<Rightarrow> nat" where
  "digit_value c = of_char c - 48"

definition is_digit :: "char \<Rightarrow> bool" where
  "is_digit c \<longleftrightarrow> 48 \<le> (of_char c :: nat) \<and> (of_char c :: nat) \<le> 57"

definition decimal_nat :: "string \<Rightarrow> nat" where
  "decimal_nat s = foldl (\<lambda>a c. 10 * a + digit_value c) 0 s"

definition plain_decimal :: "string \<Rightarrow> bool" where
  "plain_decimal s \<longleftrightarrow> s \<noteq> [] \<and> list_all is_digit s \<and> (hd s = CHR ''0'') = (s = ''0'')"

definition decimal_int :: "string \<Rightarrow> int option" where
  "decimal_int s =
     (case s of
        [] \<Rightarrow> None
      | c # cs \<Rightarrow>
          if c = CHR ''-''
          then (if plain_decimal cs \<and> cs \<noteq> ''0'' then Some (- int (decimal_nat cs)) else None)
          else (if plain_decimal s then Some (int (decimal_nat s)) else None))"

subsection \<open>External collaborators\<close>

type_synonym LSMessageToken = nat

text \<open>
  The message object, through its accessors. \<open>LSMessageAddress\<close> is the address of
  the object (the code compares message pointers). \<open>LSMessageGetUniqueToken\<close> is
  \<open>None\<close> when the accessor returns \<^verbatim>\<open>NULL\<close> (it allocates the string).
\<close>

record LSMessage =
  LSMessageAddress :: nat
  LSMessageGetUniqueToken :: "string option"
  LSMessageGetSender :: string
  LSMessageGetSenderServiceName :: "string option"
  LSMessageGetPayload :: string
  LSMessageGetToken :: LSMessageToken
  LSMessageGetKind :: string

text \<open>
  The transport, as the results it gives during one operation: \<open>LSCall\<close> (uri, payload)
  is the token of the new call, or \<open>None\<close> when the call fails; \<open>LSMessageReply\<close> says
  whether the reply to a message was sent.
\<close>

record transport =
  LSCall :: "string \<Rightarrow> string \<Rightarrow> LSMessageToken option"
  LSMessageReply :: "LSMessage \<Rightarrow> string \<Rightarrow> bool"

text \<open>
  The JSON reader over its own type \<open>'j\<close> of values: \<open>json_tokener_parse\<close> is \<open>None\<close>
  where \<^verbatim>\<open>JSON_ERROR(object)\<close> holds; \<open>json_object_object_get_ex\<close> is \<open>None\<close> where the
  call returns false.
\<close>

record 'j json_reader =
  json_tokener_parse :: "string \<Rightarrow> 'j option"
  json_object_object_get_ex :: "'j \<Rightarrow> string \<Rightarrow> 'j option"
  json_object_get_int :: "'j \<Rightarrow> int"
  json_object_get_boolean :: "'j \<Rightarrow> bool"

datatype event =
    MutexLock
  | MutexUnlock
  | MessageRef LSMessage
  | MessageUnref LSMessage
  | Call string string LSMessageToken
  | CallCancel LSMessageToken
  | CancelFunction nat LSMessage nat
  | MessageReply LSMessage string

subsection \<open>Data model\<close>

type_synonym SubList = "string list"

record Subscription =
  message :: LSMessage
  keys :: "string list"
  serverStatusWatch :: LSMessageToken
  ref :: int

text \<open>
  \<open>token_map\<close> maps a token to the address of its \<^verbatim>\<open>_Subscription\<close>; \<open>subscriptions\<close>
  is the store of these objects and \<open>next_subscription\<close> the next address \<^verbatim>\<open>g_new0\<close>
  hands out. \<open>cancel_function\<close> is \<open>None\<close> for a \<^verbatim>\<open>NULL\<close> function pointer.
\<close>

record Catalog =
  token_map :: "string \<rightharpoonup> nat"
  subscription_lists :: "string \<rightharpoonup> SubList"
  cancel_function :: "nat option"
  cancel_function_ctx :: nat
  subscriptions :: "nat \<rightharpoonup> Subscription"
  next_subscription :: nat
  trace :: "event list"

record LSSubscriptionIter =
  tokens :: "SubList option"
  seen_messages :: "LSMessage list"
  index :: int

text \<open>The catalog without the trace of its external calls.\<close>

definition catalog_state :: "Catalog \<Rightarrow> Catalog" where
  "catalog_state w = w\<lparr>trace := []\<rparr>"

definition emit :: "event \<Rightarrow> Catalog \<Rightarrow> Catalog" where
  "emit e w = w\<lparr>trace := trace w @ [e]\<rparr>"

definition CatalogLock :: "Catalog \<Rightarrow> Catalog" where
  "CatalogLock w = emit MutexLock w"

definition CatalogUnlock :: "Catalog \<Rightarrow> Catalog" where
  "CatalogUnlock w = emit MutexUnlock w"

subsection \<open>Subscriptions\<close>

text \<open>The external calls of \<^verbatim>\<open>_SubscriptionFree\<close> on a non-\<^verbatim>\<open>NULL\<close> object.\<close>

definition SubscriptionFree :: "Subscription \<Rightarrow> Catalog \<Rightarrow> Catalog" where
  "SubscriptionFree subs w =
     (let w1 = emit (MessageUnref (message subs)) w
      in if serverStatusWatch subs \<noteq> 0 then emit (CallCancel (serverStatusWatch subs)) w1
         else w1)"

definition SubscriptionAcquire :: "string \<Rightarrow> Catalog \<Rightarrow> (nat option \<times> Catalog) option" where
  "SubscriptionAcquire uniqueToken w =
     (let w1 = CatalogLock w in
      case token_map w1 uniqueToken of
        None \<Rightarrow> Some (None, CatalogUnlock w1)
      | Some a \<Rightarrow>
          (case subscriptions w1 a of
             None \<Rightarrow> None
           | Some subs \<Rightarrow>
               if 0 < ref subs
               then Some (Some a, CatalogUnlock
                      (w1\<lparr>subscriptions := (subscriptions w1)(a \<mapsto> subs\<lparr>ref := ref subs + 1\<rparr>)\<rparr>))
               else None))"

definition SubscriptionRelease :: "nat option \<Rightarrow> Catalog \<Rightarrow> Catalog option" where
  "SubscriptionRelease p w =
     (case p of
        None \<Rightarrow> Some w
      | Some a \<Rightarrow>
          (case subscriptions w a of
             None \<Rightarrow> None
           | Some subs \<Rightarrow>
               if 0 < ref subs
               then (if ref subs - 1 = 0
                     then Some ((SubscriptionFree subs w)
                            \<lparr>subscriptions := (subscriptions w)(a := None)\<rparr>)
                     else Some (w\<lparr>subscriptions :=
                            (subscriptions w)(a \<mapsto> subs\<lparr>ref := ref subs - 1\<rparr>)\<rparr>))
               else None))"

definition SubscriptionRemove :: "nat option \<Rightarrow> string \<Rightarrow> Catalog \<Rightarrow> Catalog option" where
  "SubscriptionRemove p tok w =
     (let w1 = CatalogLock w;
          w2 = w1\<lparr>token_map := (token_map w1)(tok := None)\<rparr>;
          w3 = CatalogUnlock w2
      in SubscriptionRelease p w3)"

text \<open>
  The call \<^verbatim>\<open>_SubscriptionNew\<close> makes: its uri, and the payload
  \<^verbatim>\<open>g_strdup_printf("{\"serviceName\":\"%s\"}", LSMessageGetSender(message))\<close>.
\<close>

definition registerServerStatus :: string where
  "registerServerStatus = ''palm://com.palm.bus/signal/registerServerStatus''"

definition serviceName_payload :: "string \<Rightarrow> string" where
  "serviceName_payload sender = ''{\"serviceName\":\"'' @ sender @ ''\"}''"

text \<open>
  \<^verbatim>\<open>_SubscriptionNew\<close>: the new object is stored only when the status watch was
  registered; on failure it is freed again (the watch of the zeroed object is 0).
\<close>

definition SubscriptionNew :: "transport \<Rightarrow> LSMessage \<Rightarrow> Catalog \<Rightarrow> nat option \<times> Catalog" where
  "SubscriptionNew T msg w =
     (let subs = \<lparr>message = msg, keys = [], serverStatusWatch = 0, ref = 1\<rparr>;
          w1 = emit (MessageRef msg) w;
          payload = serviceName_payload (LSMessageGetSender msg);
          w2 = emit (Call registerServerStatus payload (LSMessageGetToken msg)) w1
      in case LSCall T registerServerStatus payload of
           None \<Rightarrow> (None, SubscriptionFree subs w2)
         | Some watch \<Rightarrow>
             (let a = next_subscription w2
              in (Some a, w2\<lparr>subscriptions :=
                              (subscriptions w2)(a \<mapsto> subs\<lparr>serverStatusWatch := watch\<rparr>),
                            next_subscription := a + 1\<rparr>)))"

subsection \<open>Subscription lists\<close>

definition SubListNew :: "SubList option" where
  "SubListNew = Some []"

definition SubListLen :: "SubList option \<Rightarrow> int" where
  "SubListLen p = (case p of None \<Rightarrow> 0 | Some lst \<Rightarrow> int (length lst))"

definition SubListAdd :: "SubList option \<Rightarrow> string \<Rightarrow> SubList option" where
  "SubListAdd p data = (case p of None \<Rightarrow> None | Some lst \<Rightarrow> Some (lst @ [data]))"

definition SubListDup :: "SubList option \<Rightarrow> SubList option" where
  "SubListDup src = (case src of None \<Rightarrow> None | Some lst \<Rightarrow> Some (map (\<lambda>tok. tok) lst))"

fun SubListRemove_loop :: "SubList \<Rightarrow> string \<Rightarrow> SubList" where
  "SubListRemove_loop [] data = []"
| "SubListRemove_loop (tok # rest) data =
     (if strncmp tok data 50 = 0 then rest else tok # SubListRemove_loop rest data)"

definition SubListRemove :: "SubList option \<Rightarrow> string \<Rightarrow> SubList option" where
  "SubListRemove p data =
     (case p of None \<Rightarrow> None | Some lst \<Rightarrow> Some (SubListRemove_loop lst data))"

fun g_char_ptr_array_contains_loop :: "string list \<Rightarrow> string \<Rightarrow> bool" where
  "g_char_ptr_array_contains_loop [] data = False"
| "g_char_ptr_array_contains_loop (tok # rest) data =
     (if strcmp tok data = 0 then True else g_char_ptr_array_contains_loop rest data)"

definition g_char_ptr_array_contains :: "string list option \<Rightarrow> string \<Rightarrow> bool" where
  "g_char_ptr_array_contains p data =
     (case p of None \<Rightarrow> False | Some arr \<Rightarrow> g_char_ptr_array_contains_loop arr data)"

fun SubListContains_loop :: "SubList \<Rightarrow> string \<Rightarrow> bool" where
  "SubListContains_loop [] data = False"
| "SubListContains_loop (tok # rest) data =
     (if strncmp tok data 50 = 0 then True else SubListContains_loop rest data)"

definition SubListContains :: "SubList option \<Rightarrow> string \<Rightarrow> bool" where
  "SubListContains p data =
     (case p of None \<Rightarrow> False | Some lst \<Rightarrow> SubListContains_loop lst data)"

text \<open>
  \<^verbatim>\<open>_SubListGet\<close> reads \<^verbatim>\<open>tokens->len\<close> without a \<^verbatim>\<open>NULL\<close> check once
  \<open>i\<close> is not negative; out of range it logs and returns \<^verbatim>\<open>NULL\<close>.
\<close>

definition SubListGet :: "SubList option \<Rightarrow> int \<Rightarrow> string option option" where
  "SubListGet p i =
     (if i < 0 then Some None
      else case p of
             None \<Rightarrow> None
           | Some lst \<Rightarrow> if i \<ge> int (length lst) then Some None else Some (Some (lst ! nat i)))"

subsection \<open>The catalog\<close>

definition CatalogNew :: "Catalog" where
  "CatalogNew =
     \<lparr>token_map = Map.empty, subscription_lists = Map.empty, cancel_function = None,
      cancel_function_ctx = 0, subscriptions = Map.empty, next_subscription = 0, trace = []\<rparr>"

text \<open>
  The end of \<^verbatim>\<open>_CatalogAdd\<close>, from the assertion on: \<open>a\<close> is the address in
  \<^verbatim>\<open>subs\<close>, and \<^verbatim>\<open>list\<close> is the list stored under \<open>key\<close>, changed in place.
\<close>

definition CatalogAdd_indexes ::
  "string \<Rightarrow> string \<Rightarrow> LSMessage \<Rightarrow> nat \<Rightarrow> Catalog \<Rightarrow> (bool \<times> Catalog) option" where
  "CatalogAdd_indexes key tok msg a w =
     (case subscriptions w a of
        None \<Rightarrow> None
      | Some subs \<Rightarrow>
          if LSMessageAddress (message subs) \<noteq> LSMessageAddress msg then None
          else
            (let lst = subscription_lists w key;
                 w1 = (if \<not> SubListContains lst tok
                       then w\<lparr>subscription_lists :=
                              (subscription_lists w)(key := SubListAdd lst tok)\<rparr>
                       else w);
                 w2 = (if \<not> g_char_ptr_array_contains (Some (keys subs)) key
                       then w1\<lparr>subscriptions :=
                              (subscriptions w1)(a \<mapsto> subs\<lparr>keys := keys subs @ [key]\<rparr>)\<rparr>
                       else w1)
             in Some (True, CatalogUnlock w2)))"

definition CatalogAdd ::
  "transport \<Rightarrow> string \<Rightarrow> LSMessage \<Rightarrow> Catalog \<Rightarrow> (bool \<times> Catalog) option" where
  "CatalogAdd T key msg w =
     (case LSMessageGetUniqueToken msg of
        None \<Rightarrow> Some (False, w)
      | Some tok \<Rightarrow>
          (let w1 = CatalogLock w;
               w2 = (case subscription_lists w1 key of
                       Some lst \<Rightarrow> w1
                     | None \<Rightarrow> w1\<lparr>subscription_lists :=
                                  (subscription_lists w1)(key := SubListNew)\<rparr>)
           in case subscription_lists w2 key of
                None \<Rightarrow> Some (False, CatalogUnlock w2)
              | Some lst \<Rightarrow>
                  (case token_map w2 tok of
                     Some a \<Rightarrow> CatalogAdd_indexes key tok msg a w2
                   | None \<Rightarrow>
                       (case SubscriptionNew T msg w2 of
                          (Some a, w3) \<Rightarrow>
                            CatalogAdd_indexes key tok msg a
                              (w3\<lparr>token_map := (token_map w3)(tok \<mapsto> a)\<rparr>)
                        | (None, w3) \<Rightarrow> Some (False, CatalogUnlock w3)))))"

text \<open>
  The loop of \<^verbatim>\<open>_CatalogRemoveToken\<close> over \<^verbatim>\<open>subs->keys\<close>; it changes the lists only.
\<close>

fun CatalogRemoveToken_loop ::
  "string \<Rightarrow> string list \<Rightarrow> (string \<rightharpoonup> SubList) \<Rightarrow> (string \<rightharpoonup> SubList)" where
  "CatalogRemoveToken_loop tok [] table = table"
| "CatalogRemoveToken_loop tok (key # rest) table =
     (let sub_list = SubListRemove (table key) tok;
          table1 = table(key := sub_list);
          table2 = (if SubListLen sub_list = 0 then table1(key := None) else table1)
      in CatalogRemoveToken_loop tok rest table2)"

definition CatalogRemoveToken :: "string \<Rightarrow> bool \<Rightarrow> Catalog \<Rightarrow> (bool \<times> Catalog) option" where
  "CatalogRemoveToken tok notify w =
     (case SubscriptionAcquire tok w of
        None \<Rightarrow> None
      | Some (None, w1) \<Rightarrow> Some (False, w1)
      | Some (Some a, w1) \<Rightarrow>
          (case subscriptions w1 a of
             None \<Rightarrow> None
           | Some subs \<Rightarrow>
               (let w2 = (case cancel_function w1 of
                            None \<Rightarrow> w1
                          | Some f \<Rightarrow>
                              if notify
                              then emit (CancelFunction f (message subs) (cancel_function_ctx w1)) w1
                              else w1);
                    w3 = CatalogLock w2;
                    w4 = w3\<lparr>subscription_lists :=
                            CatalogRemoveToken_loop tok (keys subs) (subscription_lists w3)\<rparr>;
                    w5 = CatalogUnlock w4
                in case SubscriptionRemove (Some a) tok w5 of
                     None \<Rightarrow> None
                   | Some w6 \<Rightarrow>
                       (case SubscriptionRelease (Some a) w6 of
                          None \<Rightarrow> None
                        | Some w7 \<Rightarrow> Some (True, w7)))))"

definition CatalogHandleCancel ::
  "'j json_reader \<Rightarrow> LSMessage \<Rightarrow> Catalog \<Rightarrow> (bool \<times> Catalog) option" where
  "CatalogHandleCancel J cancelMsg w =
     (case json_tokener_parse J (LSMessageGetPayload cancelMsg) of
        None \<Rightarrow> Some (False, w)
      | Some obj \<Rightarrow>
          (let sender = LSMessageGetSender cancelMsg
           in case json_object_object_get_ex J obj ''token'' of
                None \<Rightarrow> Some (False, w)
              | Some tokenObj \<Rightarrow>
                  (let tok = json_object_get_int J tokenObj;
                       uniqueToken = sender @ ''.'' @ printf_d tok
                   in case CatalogRemoveToken uniqueToken True w of
                        None \<Rightarrow> None
                      | Some (found, w') \<Rightarrow> Some (True, w'))))"

definition CatalogGetSubList_unlocked :: "Catalog \<Rightarrow> string \<Rightarrow> SubList option" where
  "CatalogGetSubList_unlocked w key = subscription_lists w key"

subsection \<open>Introspection\<close>

record subscriber =
  unique_name :: string
  service_name :: string
  subscription_message :: string

fun GetJson_subscribers :: "Catalog \<Rightarrow> SubList \<Rightarrow> subscriber list option" where
  "GetJson_subscribers w [] = Some []"
| "GetJson_subscribers w (tok # rest) =
     (case token_map w tok of
        None \<Rightarrow> GetJson_subscribers w rest
      | Some a \<Rightarrow>
          (case subscriptions w a of
             None \<Rightarrow> None
           | Some sub \<Rightarrow>
               (case GetJson_subscribers w rest of
                  None \<Rightarrow> None
                | Some items \<Rightarrow>
                    Some (\<lparr>unique_name = LSMessageGetSender (message sub),
                           service_name =
                             (case LSMessageGetSenderServiceName (message sub) of
                                None \<Rightarrow> [] | Some n \<Rightarrow> n),
                           subscription_message = LSMessageGetPayload (message sub)\<rparr>
                          # items))))"

text \<open>
  The walk of \<^verbatim>\<open>g_hash_table_iter_next\<close> over \<^verbatim>\<open>subscription_lists\<close>: the table
  fixes no order, so the order of the walk is the argument \<open>order\<close>; a key of \<open>order\<close>
  that the table does not hold is not visited.
\<close>

fun GetJson_keys ::
  "Catalog \<Rightarrow> string list \<Rightarrow> (string \<times> subscriber list) list option" where
  "GetJson_keys w [] = Some []"
| "GetJson_keys w (key # rest) =
     (case subscription_lists w key of
        None \<Rightarrow> GetJson_keys w rest
      | Some sub_list \<Rightarrow>
          (case GetJson_subscribers w sub_list of
             None \<Rightarrow> None
           | Some sub_array \<Rightarrow>
               (case GetJson_keys w rest of
                  None \<Rightarrow> None
                | Some arr \<Rightarrow> Some ((key, sub_array) # arr))))"

text \<open>
  \<^verbatim>\<open>_LSSubscriptionGetJson\<close>, with the JSON constructors taken to succeed: the result
  is the content of \<^verbatim>\<open>subscriptions\<close> in the returned object.
\<close>

definition LSSubscriptionGetJson ::
  "string list \<Rightarrow> Catalog \<Rightarrow> ((string \<times> subscriber list) list \<times> Catalog) option" where
  "LSSubscriptionGetJson order w =
     (let w1 = CatalogLock w
      in case GetJson_keys w1 order of
           None \<Rightarrow> None
         | Some arr \<Rightarrow> Some (arr, CatalogUnlock w1))"

subsection \<open>The public interface\<close>

definition LSSubscriptionSetCancelFunction :: "nat option \<Rightarrow> nat \<Rightarrow> Catalog \<Rightarrow> bool \<times> Catalog" where
  "LSSubscriptionSetCancelFunction cancelFunction ctx w =
     (True, w\<lparr>cancel_function := cancelFunction, cancel_function_ctx := ctx\<rparr>)"


definition LSSubscriptionAcquire :: "string \<Rightarrow> Catalog \<Rightarrow> (bool \<times> LSSubscriptionIter) \<times> Catalog" where
  "LSSubscriptionAcquire key w =
     (let w1 = CatalogLock w;
          toks = CatalogGetSubList_unlocked w1 key;
          w2 = CatalogUnlock w1
      in ((True, \<lparr>tokens = SubListDup toks, seen_messages = [], index = -1\<rparr>), w2))"

fun LSSubscriptionRelease_loop :: "LSMessage list \<Rightarrow> Catalog \<Rightarrow> Catalog" where
  "LSSubscriptionRelease_loop [] w = w"
| "LSSubscriptionRelease_loop (msg # rest) w =
     LSSubscriptionRelease_loop rest (emit (MessageUnref msg) w)"

definition LSSubscriptionRelease :: "LSSubscriptionIter \<Rightarrow> Catalog \<Rightarrow> Catalog" where
  "LSSubscriptionRelease iter w = LSSubscriptionRelease_loop (seen_messages iter) w"

definition LSSubscriptionHasNext :: "LSSubscriptionIter \<Rightarrow> bool" where
  "LSSubscriptionHasNext iter =
     (case tokens iter of
        None \<Rightarrow> False
      | Some lst \<Rightarrow> index iter + 1 < SubListLen (tokens iter))"

definition LSSubscriptionNext ::
  "LSSubscriptionIter \<Rightarrow> Catalog \<Rightarrow> (LSMessage option \<times> LSSubscriptionIter \<times> Catalog) option" where
  "LSSubscriptionNext iter w =
     (let iter1 = iter\<lparr>index := index iter + 1\<rparr>
      in case SubListGet (tokens iter1) (index iter1) of
           None \<Rightarrow> None
         | Some None \<Rightarrow> Some (None, iter1, w)
         | Some (Some tok) \<Rightarrow>
             (case SubscriptionAcquire tok w of
                None \<Rightarrow> None
              | Some (None, w1) \<Rightarrow> Some (None, iter1, w1)
              | Some (Some a, w1) \<Rightarrow>
                  (case subscriptions w1 a of
                     None \<Rightarrow> None
                   | Some subs \<Rightarrow>
                       (let msg = message subs;
                            w2 = emit (MessageRef msg) w1;
                            iter2 = iter1\<lparr>seen_messages := msg # seen_messages iter1\<rparr>
                        in case SubscriptionRelease (Some a) w2 of
                             None \<Rightarrow> None
                           | Some w3 \<Rightarrow> Some (Some msg, iter2, w3)))))"

definition LSSubscriptionRemove :: "LSSubscriptionIter \<Rightarrow> Catalog \<Rightarrow> Catalog option" where
  "LSSubscriptionRemove iter w =
     (case SubListGet (tokens iter) (index iter) of
        None \<Rightarrow> None
      | Some None \<Rightarrow> Some w
      | Some (Some tok) \<Rightarrow>
          (case CatalogRemoveToken tok False w of
             None \<Rightarrow> None
           | Some (found, w') \<Rightarrow> Some w'))"

text \<open>
  The loop of \<^verbatim>\<open>LSSubscriptionReply\<close> over the list stored under the key, entered
  with \<^verbatim>\<open>retVal = true\<close>.
\<close>

fun LSSubscriptionReply_loop ::
  "transport \<Rightarrow> SubList \<Rightarrow> string \<Rightarrow> Catalog \<Rightarrow> (bool \<times> Catalog) option" where
  "LSSubscriptionReply_loop T [] payload w = Some (True, w)"
| "LSSubscriptionReply_loop T (tok # rest) payload w =
     (case token_map w tok of
        None \<Rightarrow> LSSubscriptionReply_loop T rest payload w
      | Some a \<Rightarrow>
          (case subscriptions w a of
             None \<Rightarrow> None
           | Some subs \<Rightarrow>
               (let msg = message subs;
                    w1 = emit (MessageReply msg payload) w
                in if \<not> LSMessageReply T msg payload then Some (False, w1)
                   else LSSubscriptionReply_loop T rest payload w1)))"

definition LSSubscriptionReply ::
  "transport \<Rightarrow> string \<Rightarrow> string \<Rightarrow> Catalog \<Rightarrow> (bool \<times> Catalog) option" where
  "LSSubscriptionReply T key payload w =
     (let w1 = CatalogLock w
      in case CatalogGetSubList_unlocked w1 key of
           None \<Rightarrow> Some (True, CatalogUnlock w1)
         | Some toks \<Rightarrow>
             (case LSSubscriptionReply_loop T toks payload w1 of
                None \<Rightarrow> None
              | Some (retVal, w2) \<Rightarrow> Some (retVal, CatalogUnlock w2)))"

text \<open>
  An \<^verbatim>\<open>LSPalmService\<close> is its public and its private connection, each with the
  transport it replies through.
\<close>

definition LSSubscriptionRespond ::
  "transport \<Rightarrow> transport \<Rightarrow> Catalog \<times> Catalog \<Rightarrow> string \<Rightarrow> string \<Rightarrow>
     (bool \<times> Catalog \<times> Catalog) option" where
  "LSSubscriptionRespond Tpublic Tprivate psh key payload =
     (case psh of (public_bus, private_bus) \<Rightarrow>
        (case LSSubscriptionReply Tpublic key payload public_bus of
           None \<Rightarrow> None
         | Some (retVal, public_bus') \<Rightarrow>
             if \<not> retVal then Some (retVal, public_bus', private_bus)
             else
               (case LSSubscriptionReply Tprivate key payload private_bus of
                  None \<Rightarrow> None
                | Some (retVal', private_bus') \<Rightarrow>
                    if \<not> retVal' then Some (retVal', public_bus', private_bus')
                    else Some (True, public_bus', private_bus'))))"


subsection \<open>Example inputs\<close>

text \<open>
  Two identifiers of 55 characters from one sender, equal on their first 50 characters.
\<close>

definition long_sender :: string where
  "long_sender = ''com.palm.service.contacts.linker.notification.handler''"

definition long_token_1 :: string where
  "long_token_1 = long_sender @ ''.1''"

definition long_token_2 :: string where
  "long_token_2 = long_sender @ ''.2''"

subsection \<open>Well-formed catalogs\<close>

text \<open>
  What the operations maintain between calls: no two entries of a list agree on their
  first 50 characters (the comparison \<^verbatim>\<open>_SubListContains\<close> makes before an entry is
  added); every indexed address was handed out, holds an object, and that object's count
  is positive; no two tokens share an object.
\<close>

definition catalog_inv :: "Catalog \<Rightarrow> bool" where
  "catalog_inv w \<longleftrightarrow>
     (\<forall>key lst. subscription_lists w key = Some lst \<longrightarrow> distinct (map (take 50) lst)) \<and>
     (\<forall>tok a. token_map w tok = Some a \<longrightarrow>
        a < next_subscription w \<and> (\<exists>subs. subscriptions w a = Some subs \<and> 0 < ref subs)) \<and>
     (\<forall>t1 t2 a. token_map w t1 = Some a \<and> token_map w t2 = Some a \<longrightarrow> t1 = t2)"

text \<open>
  Two subscribers, a transport that works and one that is down, and the catalog after
  \<open>Add(topicA, msgX)\<close>, \<open>Add(topicA, msgY)\<close>, \<open>Add(topicB, msgX)\<close>.
\<close>

definition msgX :: LSMessage where
  "msgX = \<lparr>LSMessageAddress = 100,
            LSMessageGetUniqueToken = Some ''com.example.app.7'',
            LSMessageGetSender = ''com.example.app'',
            LSMessageGetSenderServiceName = None,
            LSMessageGetPayload = ''{\"subscribe\":true}'',
            LSMessageGetToken = 7,
            LSMessageGetKind = ''/category/method''\<rparr>"

definition msgY :: LSMessage where
  "msgY = \<lparr>LSMessageAddress = 200,
            LSMessageGetUniqueToken = Some ''com.example.viewer.3'',
            LSMessageGetSender = ''com.example.viewer'',
            LSMessageGetSenderServiceName = Some ''com.example.viewer'',
            LSMessageGetPayload = ''{\"subscribe\":true}'',
            LSMessageGetToken = 3,
            LSMessageGetKind = ''/category/method''\<rparr>"

definition msgA :: LSMessage where
  "msgA = \<lparr>LSMessageAddress = 300,
            LSMessageGetUniqueToken = Some long_token_1,
            LSMessageGetSender = long_sender,
            LSMessageGetSenderServiceName = None,
            LSMessageGetPayload = ''{\"subscribe\":true}'',
            LSMessageGetToken = 1,
            LSMessageGetKind = ''/category/method''\<rparr>"

definition msgB :: LSMessage where
  "msgB = \<lparr>LSMessageAddress = 400,
            LSMessageGetUniqueToken = Some long_token_2,
            LSMessageGetSender = long_sender,
            LSMessageGetSenderServiceName = None,
            LSMessageGetPayload = ''{\"subscribe\":true}'',
            LSMessageGetToken = 2,
            LSMessageGetKind = ''/category/method''\<rparr>"

definition transport_up :: transport where
  "transport_up = \<lparr>LSCall = (\<lambda>uri payload. Some 41), LSMessageReply = (\<lambda>msg payload. True)\<rparr>"

definition transport_down :: transport where
  "transport_down = \<lparr>LSCall = (\<lambda>uri payload. None), LSMessageReply = (\<lambda>msg payload. False)\<rparr>"

definition catalog_XY :: Catalog where
  "catalog_XY =
     \<lparr>token_map = [''com.example.app.7'' \<mapsto> 0, ''com.example.viewer.3'' \<mapsto> 1],
      subscription_lists =
        [''topicA'' \<mapsto> [''com.example.app.7'', ''com.example.viewer.3''],
         ''topicB'' \<mapsto> [''com.example.app.7'']],
      cancel_function = None,
      cancel_function_ctx = 0,
      subscriptions =
        [0 \<mapsto> \<lparr>message = msgX, keys = [''topicA'', ''topicB''], serverStatusWatch = 41, ref = 1\<rparr>,
         1 \<mapsto> \<lparr>message = msgY, keys = [''topicA''], serverStatusWatch = 41, ref = 1\<rparr>],
      next_subscription = 2,
      trace = []\<rparr>"

text \<open>
  A JSON reader for the payloads of the examples, and a cancel message from the sender
  of \<open>msgX\<close> for its call 7.
\<close>

datatype json = JInt int | JBool bool | JString string | JObject "(string \<times> json) list"

definition example_reader :: "json json_reader" where
  "example_reader =
     \<lparr>json_tokener_parse =
        (\<lambda>s. if s = ''{\"token\":7}'' then Some (JObject [(''token'', JInt 7)])
             else if s = ''{\"subscribe\":true}'' then Some (JObject [(''subscribe'', JBool True)])
             else if s = ''{\"subscribe\":false}'' then Some (JObject [(''subscribe'', JBool False)])
             else if s = ''{}'' then Some (JObject [])
             else None),
      json_object_object_get_ex =
        (\<lambda>j field. case j of JObject fs \<Rightarrow> map_of fs field | _ \<Rightarrow> None),
      json_object_get_int =
        (\<lambda>j. case j of JInt i \<Rightarrow> i | JBool b \<Rightarrow> (if b then 1 else 0) | _ \<Rightarrow> 0),
      json_object_get_boolean =
        (\<lambda>j. case j of JBool b \<Rightarrow> b | JInt i \<Rightarrow> i \<noteq> 0 | JString s \<Rightarrow> s \<noteq> [] | _ \<Rightarrow> False)\<rparr>"

definition cancelX :: LSMessage where
  "cancelX = \<lparr>LSMessageAddress = 500,
            LSMessageGetUniqueToken = Some ''com.example.app.9'',
            LSMessageGetSender = ''com.example.app'',
            LSMessageGetSenderServiceName = None,
            LSMessageGetPayload = ''{\"token\":7}'',
            LSMessageGetToken = 9,
            LSMessageGetKind = ''/com/palm/luna/private/cancel''\<rparr>"

subsection \<open>Reading the trace\<close>

text \<open>
  \<open>outside_lock held evs\<close>: in the events \<open>evs\<close>, started with the mutex held or not
  (\<open>held\<close>), every call of the cancel function and every reply happens while the mutex
  is not held. \<open>under_lock held evs\<close>: every reply happens while the mutex is held.
\<close>

fun outside_lock :: "bool \<Rightarrow> event list \<Rightarrow> bool" where
  "outside_lock held [] = True"
| "outside_lock held (MutexLock # evs) = outside_lock True evs"
| "outside_lock held (MutexUnlock # evs) = outside_lock False evs"
| "outside_lock held (CancelFunction f msg ctx # evs) = (\<not> held \<and> outside_lock held evs)"
| "outside_lock held (MessageReply msg payload # evs) = (\<not> held \<and> outside_lock held evs)"
| "outside_lock held (ev # evs) = outside_lock held evs"

fun under_lock :: "bool \<Rightarrow> event list \<Rightarrow> bool" where
  "under_lock held [] = True"
| "under_lock held (MutexLock # evs) = under_lock True evs"
| "under_lock held (MutexUnlock # evs) = under_lock False evs"
| "under_lock held (MessageReply msg payload # evs) = (held \<and> under_lock held evs)"
| "under_lock held (ev # evs) = under_lock held evs"

text \<open>
  The messages of the entries of a list that have a subscription, in the order of the
  list; and, of a list of messages to reply to in turn, those a walk reaches that stops
  after the first reply the transport does not send.
\<close>

fun live_subscribers :: "Catalog \<Rightarrow> SubList \<Rightarrow> LSMessage list" where
  "live_subscribers w [] = []"
| "live_subscribers w (tok # rest) =
     (case token_map w tok of
        None \<Rightarrow> live_subscribers w rest
      | Some a \<Rightarrow>
          (case subscriptions w a of
             None \<Rightarrow> live_subscribers w rest
           | Some subs \<Rightarrow> message subs # live_subscribers w rest))"

fun replied_to :: "transport \<Rightarrow> string \<Rightarrow> LSMessage list \<Rightarrow> LSMessage list" where
  "replied_to T payload [] = []"
| "replied_to T payload (msg # rest) =
     (if LSMessageReply T msg payload then msg # replied_to T payload rest else [msg])"

text \<open>A transport on which the replies to \<open>msgX\<close> fail and all others are sent.\<close>

definition transport_X_unreachable :: transport where
  "transport_X_unreachable =
     \<lparr>LSCall = (\<lambda>uri payload. Some 41),
      LSMessageReply = (\<lambda>msg payload. LSMessageAddress msg \<noteq> 100)\<rparr>"

subsection \<open>Reachable catalogs and the invariants of the specification\<close>

text \<open>
  The catalogs the interface can produce from a new one. \<open>CatalogHandleCancel\<close> and
  \<open>LSSubscriptionProcess\<close> change the catalog through \<open>CatalogRemoveToken\<close> and
  \<open>CatalogAdd\<close> only.
\<close>

inductive reachable :: "Catalog \<Rightarrow> bool" where
  new: "reachable CatalogNew"
| set_cancel_function:
    "reachable w \<Longrightarrow> reachable (snd (LSSubscriptionSetCancelFunction cancelFunction ctx w))"
| add: "reachable w \<Longrightarrow> CatalogAdd T key msg w = Some (r, w') \<Longrightarrow> reachable w'"
| remove_token:
    "reachable w \<Longrightarrow> CatalogRemoveToken tok notify w = Some (r, w') \<Longrightarrow> reachable w'"
| reply: "reachable w \<Longrightarrow> LSSubscriptionReply T key payload w = Some (r, w') \<Longrightarrow> reachable w'"
| acquire: "reachable w \<Longrightarrow> reachable (snd (LSSubscriptionAcquire key w))"
| next_message:
    "reachable w \<Longrightarrow> LSSubscriptionNext iter w = Some (m, iter', w') \<Longrightarrow> reachable w'"
| remove_current: "reachable w \<Longrightarrow> LSSubscriptionRemove iter w = Some w' \<Longrightarrow> reachable w'"
| release: "reachable w \<Longrightarrow> reachable (LSSubscriptionRelease iter w)"
| get_json: "reachable w \<Longrightarrow> LSSubscriptionGetJson order w = Some (arr, w') \<Longrightarrow> reachable w'"

text \<open>
  I2 and I3 of the specification: an identifier is in the list of a key exactly when the
  key is in the key set of the identifier's subscription; no key has an empty list.
\<close>

definition index_consistent :: "Catalog \<Rightarrow> bool" where
  "index_consistent w \<longleftrightarrow>
     (\<forall>key tok.
        (\<exists>lst. subscription_lists w key = Some lst \<and> tok \<in> set lst) =
        (\<exists>a subs. token_map w tok = Some a \<and> subscriptions w a = Some subs \<and>
                  key \<in> set (keys subs)))"

definition no_empty_lists :: "Catalog \<Rightarrow> bool" where
  "no_empty_lists w \<longleftrightarrow> (\<forall>key. subscription_lists w key \<noteq> Some [])"

text \<open>Every identifier of the catalog is shorter than the 50 characters the lists compare.\<close>

definition short_tokens :: "Catalog \<Rightarrow> bool" where
  "short_tokens w \<longleftrightarrow>
     (\<forall>key lst tok. subscription_lists w key = Some lst \<and> tok \<in> set lst \<longrightarrow> length tok < 50) \<and>
     (\<forall>tok a. token_map w tok = Some a \<longrightarrow> length tok < 50)"

section \<open>Properties\<close>

subsection \<open>String comparison and subscription lists\<close>

lemma strncmp_eq_0_iff: "strncmp s1 s2 n = 0 \<longleftrightarrow> take n s1 = take n s2"
  by (induction s1 s2 n rule: strncmp.induct) auto

lemma strcmp_eq_0_iff: "strcmp s1 s2 = 0 \<longleftrightarrow> s1 = s2"
  by (induction s1 s2 rule: strcmp.induct) auto

lemma SubListContains_loop_iff:
  "SubListContains_loop lst d \<longleftrightarrow> (\<exists>t\<in>set lst. take 50 t = take 50 d)"
  by (induction lst) (auto simp: strncmp_eq_0_iff)

lemma g_char_ptr_array_contains_loop_iff:
  "g_char_ptr_array_contains_loop arr d \<longleftrightarrow> d \<in> set arr"
  by (induction arr) (auto simp: strcmp_eq_0_iff)

lemma SubListRemove_loop_first_match:
  "take 50 t = take 50 d \<Longrightarrow> \<forall>x\<in>set xs. take 50 x \<noteq> take 50 d \<Longrightarrow>
   SubListRemove_loop (xs @ t # ys) d = xs @ ys"
  by (induction xs) (auto simp: strncmp_eq_0_iff)

lemma SubListRemove_loop_no_match:
  "\<forall>x\<in>set xs. take 50 x \<noteq> take 50 d \<Longrightarrow> SubListRemove_loop xs d = xs"
  by (induction xs) (auto simp: strncmp_eq_0_iff)

lemma SubListRemove_loop_cong:
  "take 50 d1 = take 50 d2 \<Longrightarrow> SubListRemove_loop lst d1 = SubListRemove_loop lst d2"
  by (induction lst) (auto simp: strncmp_eq_0_iff)

lemma long_tokens_collide:
  "take 50 long_token_1 = take 50 long_token_2" "long_token_1 \<noteq> long_token_2"
  by (simp_all add: long_token_1_def long_token_2_def long_sender_def)

text \<open>
  C10. \<^verbatim>\<open>_SubListContains\<close> and \<^verbatim>\<open>_SubListRemove\<close> compare identifiers on their
  first 50 characters only: two identifiers that agree there are the same element to
  \<open>SubListContains\<close> and to \<open>SubListRemove\<close>; \<open>SubListContains\<close> holds exactly when some
  entry agrees with the identifier on the first 50 characters; \<open>SubListRemove\<close> deletes
  the first such entry (and nothing when there is none). The key-set check
  \<^verbatim>\<open>g_char_ptr_array_contains\<close> is full string equality, so two distinct
  identifiers with a common 50-character prefix collide in the list and not in the key set.
\<close>

theorem SubList_compares_first_50_characters:
  "take 50 id1 = take 50 id2 \<Longrightarrow>
     SubListContains (Some lst) id1 = SubListContains (Some lst) id2 \<and>
     SubListRemove (Some lst) id1 = SubListRemove (Some lst) id2 \<and>
     (SubListContains (Some lst) id1 \<longleftrightarrow> (\<exists>t\<in>set lst. take 50 t = take 50 id1)) \<and>
     (\<forall>xs t ys. lst = xs @ t # ys \<and> take 50 t = take 50 id1 \<and>
         (\<forall>x\<in>set xs. take 50 x \<noteq> take 50 id1) \<longrightarrow>
       SubListRemove (Some lst) id1 = Some (xs @ ys)) \<and>
     ((\<forall>x\<in>set lst. take 50 x \<noteq> take 50 id1) \<longrightarrow> SubListRemove (Some lst) id1 = Some lst) \<and>
     (g_char_ptr_array_contains (Some arr) id1 \<longleftrightarrow> id1 \<in> set arr) \<and>
     (id1 \<noteq> id2 \<longrightarrow>
        SubListContains (Some [id1]) id2 \<and> \<not> g_char_ptr_array_contains (Some [id1]) id2)"
proof -
  assume same: "take 50 id1 = take 50 id2"
  have contains: "SubListContains (Some lst) id1 = SubListContains (Some lst) id2"
    unfolding SubListContains_def option.case SubListContains_loop_iff same ..
  have remove: "SubListRemove (Some lst) id1 = SubListRemove (Some lst) id2"
    unfolding SubListRemove_def option.case SubListRemove_loop_cong [OF same] ..
  have contains_iff:
    "SubListContains (Some lst) id1 \<longleftrightarrow> (\<exists>t\<in>set lst. take 50 t = take 50 id1)"
    unfolding SubListContains_def option.case SubListContains_loop_iff ..
  have first: "\<forall>xs t ys. lst = xs @ t # ys \<and> take 50 t = take 50 id1 \<and>
         (\<forall>x\<in>set xs. take 50 x \<noteq> take 50 id1) \<longrightarrow>
       SubListRemove (Some lst) id1 = Some (xs @ ys)"
  proof (intro allI impI, elim conjE)
    fix xs t ys
    assume "lst = xs @ t # ys" "take 50 t = take 50 id1"
      "\<forall>x\<in>set xs. take 50 x \<noteq> take 50 id1"
    then show "SubListRemove (Some lst) id1 = Some (xs @ ys)"
      unfolding SubListRemove_def option.case
      by (simp only: SubListRemove_loop_first_match)
  qed
  have none: "(\<forall>x\<in>set lst. take 50 x \<noteq> take 50 id1) \<longrightarrow>
       SubListRemove (Some lst) id1 = Some lst"
    unfolding SubListRemove_def option.case
    by (intro impI) (simp only: SubListRemove_loop_no_match)
  have key_set: "g_char_ptr_array_contains (Some arr) id1 \<longleftrightarrow> id1 \<in> set arr"
    unfolding g_char_ptr_array_contains_def option.case g_char_ptr_array_contains_loop_iff ..
  have c1: "SubListContains (Some [id1]) id2"
    unfolding SubListContains_def option.case SubListContains_loop_iff
    using same by (intro bexI [of _ id1]) (simp_all only: list.set_intros)
  have c2: "id1 \<noteq> id2 \<longrightarrow> \<not> g_char_ptr_array_contains (Some [id1]) id2"
    unfolding g_char_ptr_array_contains_def option.case g_char_ptr_array_contains_loop_iff
    by auto
  from contains remove contains_iff first none key_set c1 c2 show ?thesis
    by (intro conjI impI) (assumption | blast)+
qed

theorem SubList_compares_first_50_characters_witness:
  "take 50 long_token_1 = take 50 long_token_2 \<and>
   long_token_1 \<noteq> long_token_2 \<and>
   SubListContains (Some [long_token_1]) long_token_2 \<and>
   \<not> g_char_ptr_array_contains (Some [long_token_1]) long_token_2 \<and>
   SubListRemove (Some [''a'', long_token_1, ''b'']) long_token_2 = Some [''a'', ''b'']"
proof -
  have same: "take 50 long_token_1 = take 50 long_token_2"
    by (rule long_tokens_collide)
  have differ: "long_token_1 \<noteq> long_token_2"
    by (rule long_tokens_collide)
  note T = SubList_compares_first_50_characters
         [OF same, of "[''a'', long_token_1, ''b'']" "[long_token_1]"]
  have r: "SubListRemove (Some [''a'', long_token_1, ''b'']) long_token_1 =
          SubListRemove (Some [''a'', long_token_1, ''b'']) long_token_2"
    by (rule T [THEN conjunct2, THEN conjunct1])
  have f: "[''a'', long_token_1, ''b''] = [''a''] @ long_token_1 # [''b''] \<and>
           take 50 long_token_1 = take 50 long_token_1 \<and>
           (\<forall>x\<in>set [''a'']. take 50 x \<noteq> take 50 long_token_1) \<longrightarrow>
         SubListRemove (Some [''a'', long_token_1, ''b'']) long_token_1 = Some ([''a''] @ [''b''])"
    by (rule T [THEN conjunct2, THEN conjunct2, THEN conjunct2, THEN conjunct1,
                THEN spec, THEN spec, THEN spec])
  have pre: "[''a'', long_token_1, ''b''] = [''a''] @ long_token_1 # [''b''] \<and>
           take 50 long_token_1 = take 50 long_token_1 \<and>
           (\<forall>x\<in>set [''a'']. take 50 x \<noteq> take 50 long_token_1)"
    by (simp add: long_token_1_def long_sender_def)
  have r1: "SubListRemove (Some [''a'', long_token_1, ''b'']) long_token_1 = Some [''a'', ''b'']"
    using f [THEN mp, OF pre] by simp
  have c: "SubListContains (Some [long_token_1]) long_token_2 \<and>
          \<not> g_char_ptr_array_contains (Some [long_token_1]) long_token_2"
    by (rule T [THEN conjunct2, THEN conjunct2, THEN conjunct2, THEN conjunct2,
                THEN conjunct2, THEN conjunct2, THEN mp, OF differ])
  from same differ c r r1 show ?thesis
    by (simp only: simp_thms)
qed

subsection \<open>Fields after the basic steps\<close>

lemma emit_fields [simp]:
  "token_map (emit e w) = token_map w"
  "subscription_lists (emit e w) = subscription_lists w"
  "cancel_function (emit e w) = cancel_function w"
  "cancel_function_ctx (emit e w) = cancel_function_ctx w"
  "subscriptions (emit e w) = subscriptions w"
  "next_subscription (emit e w) = next_subscription w"
  "trace (emit e w) = trace w @ [e]"
  by (simp_all add: emit_def)

lemma CatalogLock_fields [simp]:
  "token_map (CatalogLock w) = token_map w"
  "subscription_lists (CatalogLock w) = subscription_lists w"
  "cancel_function (CatalogLock w) = cancel_function w"
  "cancel_function_ctx (CatalogLock w) = cancel_function_ctx w"
  "subscriptions (CatalogLock w) = subscriptions w"
  "next_subscription (CatalogLock w) = next_subscription w"
  "trace (CatalogLock w) = trace w @ [MutexLock]"
  by (simp_all add: CatalogLock_def)

lemma CatalogUnlock_fields [simp]:
  "token_map (CatalogUnlock w) = token_map w"
  "subscription_lists (CatalogUnlock w) = subscription_lists w"
  "cancel_function (CatalogUnlock w) = cancel_function w"
  "cancel_function_ctx (CatalogUnlock w) = cancel_function_ctx w"
  "subscriptions (CatalogUnlock w) = subscriptions w"
  "next_subscription (CatalogUnlock w) = next_subscription w"
  "trace (CatalogUnlock w) = trace w @ [MutexUnlock]"
  by (simp_all add: CatalogUnlock_def)

lemma catalog_state_fields [simp]:
  "token_map (catalog_state w) = token_map w"
  "subscription_lists (catalog_state w) = subscription_lists w"
  "cancel_function (catalog_state w) = cancel_function w"
  "cancel_function_ctx (catalog_state w) = cancel_function_ctx w"
  "subscriptions (catalog_state w) = subscriptions w"
  "next_subscription (catalog_state w) = next_subscription w"
  "trace (catalog_state w) = []"
  by (simp_all add: catalog_state_def)

lemma catalog_state_emit [simp]:
  "catalog_state (emit e w) = catalog_state w"
  "catalog_state (CatalogLock w) = catalog_state w"
  "catalog_state (CatalogUnlock w) = catalog_state w"
  by (simp_all add: catalog_state_def emit_def CatalogLock_def CatalogUnlock_def)

lemma catalog_state_eq_iff:
  "catalog_state w' = catalog_state w \<longleftrightarrow>
     token_map w' = token_map w \<and> subscription_lists w' = subscription_lists w \<and>
     cancel_function w' = cancel_function w \<and> cancel_function_ctx w' = cancel_function_ctx w \<and>
     subscriptions w' = subscriptions w \<and> next_subscription w' = next_subscription w"
  by (cases w, cases w') (auto simp: catalog_state_def)

lemma SubscriptionFree_fields [simp]:
  "token_map (SubscriptionFree s w) = token_map w"
  "subscription_lists (SubscriptionFree s w) = subscription_lists w"
  "cancel_function (SubscriptionFree s w) = cancel_function w"
  "cancel_function_ctx (SubscriptionFree s w) = cancel_function_ctx w"
  "subscriptions (SubscriptionFree s w) = subscriptions w"
  "next_subscription (SubscriptionFree s w) = next_subscription w"
  "catalog_state (SubscriptionFree s w) = catalog_state w"
  by (simp_all add: SubscriptionFree_def Let_def)

lemma SubscriptionFree_trace:
  "trace (SubscriptionFree s w) =
     trace w @ MessageUnref (message s) #
       (if serverStatusWatch s \<noteq> 0 then [CallCancel (serverStatusWatch s)] else [])"
  by (simp add: SubscriptionFree_def Let_def)

lemma SubscriptionAcquire_absent:
  "token_map w tok = None \<Longrightarrow>
   SubscriptionAcquire tok w = Some (None, w\<lparr>trace := trace w @ [MutexLock, MutexUnlock]\<rparr>)"
  by (simp add: SubscriptionAcquire_def Let_def CatalogLock_def CatalogUnlock_def emit_def)

lemma SubscriptionAcquire_present:
  "token_map w tok = Some a \<Longrightarrow> subscriptions w a = Some s \<Longrightarrow> 0 < ref s \<Longrightarrow>
   SubscriptionAcquire tok w =
     Some (Some a, w\<lparr>subscriptions := (subscriptions w)(a \<mapsto> s\<lparr>ref := ref s + 1\<rparr>),
                     trace := trace w @ [MutexLock, MutexUnlock]\<rparr>)"
  by (simp add: SubscriptionAcquire_def Let_def CatalogLock_def CatalogUnlock_def emit_def)

subsection \<open>The removal loop on one list\<close>

lemma SubListRemove_loop_subset: "set (SubListRemove_loop l d) \<subseteq> set l"
  by (induction l) auto

lemma SubListRemove_loop_distinct_prefix:
  "distinct (map (take 50) l) \<Longrightarrow> distinct (map (take 50) (SubListRemove_loop l d))"
proof (induction l)
  case Nil
  then show ?case by simp
next
  case (Cons x l)
  have "take 50 x \<notin> take 50 ` set (SubListRemove_loop l d)"
    using Cons.prems SubListRemove_loop_subset [of l d] by auto
  with Cons show ?case by simp
qed

lemma SubListRemove_loop_no_match_left:
  "distinct (map (take 50) l) \<Longrightarrow> x \<in> set (SubListRemove_loop l d) \<Longrightarrow> take 50 x \<noteq> take 50 d"
proof (induction l)
  case Nil
  then show ?case by simp
next
  case (Cons y l)
  show ?case
  proof (cases "strncmp y d 50 = 0")
    case True
    then have "take 50 y = take 50 d" by (simp only: strncmp_eq_0_iff)
    moreover have "x \<in> set l" using Cons.prems(2) True by simp
    moreover have "take 50 y \<notin> take 50 ` set l" using Cons.prems(1) by simp
    ultimately show ?thesis by (metis imageI)
  next
    case False
    then have ne: "take 50 y \<noteq> take 50 d" by (simp only: strncmp_eq_0_iff not_False_eq_True)
    from False Cons.prems(2) have "x = y \<or> x \<in> set (SubListRemove_loop l d)" by simp
    then show ?thesis
    proof
      assume "x = y" with ne show ?thesis by simp
    next
      assume "x \<in> set (SubListRemove_loop l d)"
      with Cons.IH Cons.prems(1) show ?thesis by simp
    qed
  qed
qed

lemma SubListRemove_loop_not_member:
  "distinct (map (take 50) l) \<Longrightarrow> d \<notin> set (SubListRemove_loop l d)"
  using SubListRemove_loop_no_match_left by blast

lemma SubListRemove_loop_idem:
  "distinct (map (take 50) l) \<Longrightarrow>
   SubListRemove_loop (SubListRemove_loop l d) d = SubListRemove_loop l d"
  by (rule SubListRemove_loop_no_match) (blast dest: SubListRemove_loop_no_match_left)

lemma SubListRemove_loop_remove1:
  "distinct (map (take 50) l) \<Longrightarrow> d \<in> set l \<Longrightarrow> SubListRemove_loop l d = remove1 d l"
proof (induction l)
  case Nil
  then show ?case by simp
next
  case (Cons y l)
  show ?case
  proof (cases "y = d")
    case True
    then show ?thesis by (simp add: strncmp_eq_0_iff)
  next
    case False
    with Cons.prems(2) have mem: "d \<in> set l" by simp
    have "take 50 y \<notin> take 50 ` set l" using Cons.prems(1) by simp
    with mem have "take 50 y \<noteq> take 50 d" by (metis imageI)
    then have "strncmp y d 50 \<noteq> 0" by (simp only: strncmp_eq_0_iff not_False_eq_True)
    with False show ?thesis using Cons.IH Cons.prems(1) mem by simp
  qed
qed

subsection \<open>The loop of the removal over the key set\<close>

lemma SubListLen_eq_0_iff: "SubListLen p = 0 \<longleftrightarrow> p = None \<or> p = Some []"
  by (cases p) (simp_all add: SubListLen_def)

lemma CatalogRemoveToken_loop_other:
  "key \<notin> set ks \<Longrightarrow> CatalogRemoveToken_loop tok ks table key = table key"
  by (induction ks arbitrary: table) (auto simp: Let_def)

lemma CatalogRemoveToken_loop_member:
  "key \<in> set ks \<Longrightarrow>
   \<forall>k l. table k = Some l \<longrightarrow> distinct (map (take 50) l) \<Longrightarrow>
   CatalogRemoveToken_loop tok ks table key =
     (case table key of
        None \<Rightarrow> None
      | Some l \<Rightarrow> if SubListRemove_loop l tok = [] then None
                  else Some (SubListRemove_loop l tok))"
proof (induction ks arbitrary: table)
  case Nil
  then show ?case by simp
next
  case (Cons k rest)
  define r where "r = (case table k of
        None \<Rightarrow> None
      | Some l \<Rightarrow> if SubListRemove_loop l tok = [] then None
                  else Some (SubListRemove_loop l tok))"
  define table2 where "table2 = table(k := r)"
  have step: "CatalogRemoveToken_loop tok (k # rest) table = CatalogRemoveToken_loop tok rest table2"
    by (cases "table k")
       (auto simp: Let_def table2_def r_def SubListRemove_def SubListLen_def)
  have inv2: "\<forall>k' l. table2 k' = Some l \<longrightarrow> distinct (map (take 50) l)"
    using Cons.prems(2)
    by (auto simp: table2_def r_def SubListRemove_loop_distinct_prefix
             split: option.splits if_splits)
  show ?case
  proof (cases "key \<in> set rest")
    case True
    from Cons.IH [OF True inv2]
    have ih: "CatalogRemoveToken_loop tok rest table2 key =
        (case table2 key of None \<Rightarrow> None
         | Some l \<Rightarrow> if SubListRemove_loop l tok = [] then None
                     else Some (SubListRemove_loop l tok))" .
    show ?thesis
    proof (cases "key = k")
      case False
      then show ?thesis unfolding step ih by (simp add: table2_def)
    next
      case keyk: True
      show ?thesis
      proof (cases "table k")
        case None
        then show ?thesis unfolding step ih using keyk by (simp add: table2_def r_def)
      next
        case (Some l)
        then have "distinct (map (take 50) l)" using Cons.prems(2) by blast
        then have "SubListRemove_loop (SubListRemove_loop l tok) tok = SubListRemove_loop l tok"
          by (rule SubListRemove_loop_idem)
        then show ?thesis unfolding step ih using keyk Some by (simp add: table2_def r_def)
      qed
    qed
  next
    case False
    with Cons.prems(1) have keyk: "key = k" by simp
    from False have "CatalogRemoveToken_loop tok rest table2 key = table2 key"
      by (rule CatalogRemoveToken_loop_other)
    then show ?thesis unfolding step using keyk by (simp add: table2_def r_def)
  qed
qed

lemma CatalogRemoveToken_loop_inv:
  "\<forall>k l. table k = Some l \<longrightarrow> distinct (map (take 50) l) \<Longrightarrow>
   CatalogRemoveToken_loop tok ks table key = Some l \<Longrightarrow> distinct (map (take 50) l)"
proof (cases "key \<in> set ks")
  case True
  assume inv: "\<forall>k l. table k = Some l \<longrightarrow> distinct (map (take 50) l)"
    and res: "CatalogRemoveToken_loop tok ks table key = Some l"
  from res show ?thesis
    unfolding CatalogRemoveToken_loop_member [OF True inv]
    using inv by (auto simp: SubListRemove_loop_distinct_prefix split: option.splits if_splits)
next
  case False
  assume inv: "\<forall>k l. table k = Some l \<longrightarrow> distinct (map (take 50) l)"
    and res: "CatalogRemoveToken_loop tok ks table key = Some l"
  from res show ?thesis
    unfolding CatalogRemoveToken_loop_other [OF False] using inv by blast
qed

lemma CatalogRemoveToken_absent:
  "token_map w tok = None \<Longrightarrow>
   CatalogRemoveToken tok notify w = Some (False, w\<lparr>trace := trace w @ [MutexLock, MutexUnlock]\<rparr>)"
  by (simp add: CatalogRemoveToken_def SubscriptionAcquire_absent)

lemma CatalogRemoveToken_present:
  assumes "token_map w tok = Some a" and "subscriptions w a = Some s" and "0 < ref s"
  shows "\<exists>w'. CatalogRemoveToken tok notify w = Some (True, w') \<and>
     token_map w' = (token_map w)(tok := None) \<and>
     subscription_lists w' = CatalogRemoveToken_loop tok (keys s) (subscription_lists w) \<and>
     subscriptions w' =
       (if ref s = 1 then (subscriptions w)(a := None)
        else (subscriptions w)(a \<mapsto> s\<lparr>ref := ref s - 1\<rparr>)) \<and>
     cancel_function w' = cancel_function w \<and>
     cancel_function_ctx w' = cancel_function_ctx w \<and>
     next_subscription w' = next_subscription w \<and>
     trace w' = trace w @ [MutexLock, MutexUnlock] @
       (case cancel_function w of
          None \<Rightarrow> []
        | Some f \<Rightarrow> if notify then [CancelFunction f (message s) (cancel_function_ctx w)] else []) @
       [MutexLock, MutexUnlock, MutexLock, MutexUnlock] @
       (if ref s = 1
        then MessageUnref (message s) #
               (if serverStatusWatch s \<noteq> 0 then [CallCancel (serverStatusWatch s)] else [])
        else [])"
  using assms
  by (cases "cancel_function w")
     (auto simp: CatalogRemoveToken_def SubscriptionAcquire_present SubscriptionRemove_def
        SubscriptionRelease_def Let_def SubscriptionFree_trace)

subsection \<open>The result of an Add\<close>

lemma CatalogAdd_no_token:
  "LSMessageGetUniqueToken msg = None \<Longrightarrow> CatalogAdd T key msg w = Some (False, w)"
  by (simp add: CatalogAdd_def)

lemma CatalogAdd_failed:
  assumes "LSMessageGetUniqueToken msg = Some tok" and "token_map w tok = None"
    and "LSCall T registerServerStatus (serviceName_payload (LSMessageGetSender msg)) = None"
  shows "CatalogAdd T key msg w =
     Some (False, w\<lparr>subscription_lists :=
              (case subscription_lists w key of
                 None \<Rightarrow> (subscription_lists w)(key \<mapsto> [])
               | Some l \<Rightarrow> subscription_lists w),
            trace := trace w @ [MutexLock, MessageRef msg,
              Call registerServerStatus (serviceName_payload (LSMessageGetSender msg))
                (LSMessageGetToken msg),
              MessageUnref msg, MutexUnlock]\<rparr>)"
  using assms
  by (cases "subscription_lists w key")
     (simp_all add: CatalogAdd_def Let_def SubListNew_def SubscriptionNew_def
        SubscriptionFree_def emit_def CatalogUnlock_def CatalogLock_def)

lemma CatalogAdd_known:
  assumes "LSMessageGetUniqueToken msg = Some tok" and "token_map w tok = Some a"
    and "subscriptions w a = Some s"
    and "LSMessageAddress (message s) = LSMessageAddress msg"
  shows "CatalogAdd T key msg w =
     Some (True, w\<lparr>subscription_lists :=
              (subscription_lists w)(key \<mapsto>
                 (let l = (case subscription_lists w key of None \<Rightarrow> [] | Some l \<Rightarrow> l)
                  in if SubListContains_loop l tok then l else l @ [tok])),
            subscriptions :=
              (if key \<in> set (keys s) then subscriptions w
               else (subscriptions w)(a \<mapsto> s\<lparr>keys := keys s @ [key]\<rparr>)),
            trace := trace w @ [MutexLock, MutexUnlock]\<rparr>)"
  using assms
  by (cases "subscription_lists w key")
     (simp_all add: CatalogAdd_def CatalogAdd_indexes_def Let_def SubListNew_def
        SubListContains_def SubListAdd_def g_char_ptr_array_contains_def
        g_char_ptr_array_contains_loop_iff emit_def CatalogUnlock_def CatalogLock_def
        map_upd_triv)

lemma CatalogAdd_created:
  assumes "LSMessageGetUniqueToken msg = Some tok" and "token_map w tok = None"
    and "LSCall T registerServerStatus (serviceName_payload (LSMessageGetSender msg)) = Some watch"
  shows "CatalogAdd T key msg w =
     Some (True, w\<lparr>token_map := (token_map w)(tok \<mapsto> next_subscription w),
            subscription_lists :=
              (subscription_lists w)(key \<mapsto>
                 (let l = (case subscription_lists w key of None \<Rightarrow> [] | Some l \<Rightarrow> l)
                  in if SubListContains_loop l tok then l else l @ [tok])),
            subscriptions := (subscriptions w)(next_subscription w \<mapsto>
               \<lparr>message = msg, keys = [key], serverStatusWatch = watch, ref = 1\<rparr>),
            next_subscription := next_subscription w + 1,
            trace := trace w @ [MutexLock, MessageRef msg,
              Call registerServerStatus (serviceName_payload (LSMessageGetSender msg))
                (LSMessageGetToken msg),
              MutexUnlock]\<rparr>)"
  using assms
  by (cases "subscription_lists w key")
     (simp_all add: CatalogAdd_def CatalogAdd_indexes_def Let_def SubListNew_def
        SubscriptionNew_def SubListContains_def SubListAdd_def g_char_ptr_array_contains_def
        emit_def CatalogUnlock_def CatalogLock_def map_upd_triv)

lemma CatalogAdd_dangling:
  "LSMessageGetUniqueToken msg = Some tok \<Longrightarrow> token_map w tok = Some a \<Longrightarrow>
   subscriptions w a = None \<Longrightarrow> CatalogAdd T key msg w = None"
  by (cases "subscription_lists w key")
     (simp_all add: CatalogAdd_def CatalogAdd_indexes_def Let_def SubListNew_def CatalogLock_def emit_def)

lemma CatalogAdd_other_message:
  "LSMessageGetUniqueToken msg = Some tok \<Longrightarrow> token_map w tok = Some a \<Longrightarrow>
   subscriptions w a = Some s \<Longrightarrow> LSMessageAddress (message s) \<noteq> LSMessageAddress msg \<Longrightarrow>
   CatalogAdd T key msg w = None"
  by (cases "subscription_lists w key")
     (simp_all add: CatalogAdd_def CatalogAdd_indexes_def Let_def SubListNew_def CatalogLock_def emit_def)

lemma SubListContains_loop_append_self:
  "SubListContains_loop (if SubListContains_loop l tok then l else l @ [tok]) tok"
  unfolding SubListContains_loop_iff by auto

lemma CatalogAdd_again:
  assumes "CatalogAdd T key msg w = Some (True, w')"
  shows "CatalogAdd T' key msg w' = Some (True, w'\<lparr>trace := trace w' @ [MutexLock, MutexUnlock]\<rparr>)"
proof (cases "LSMessageGetUniqueToken msg")
  case None
  with assms show ?thesis by (simp add: CatalogAdd_no_token)
next
  case (Some tok)
  define l' where "l' = (let l = (case subscription_lists w key of None \<Rightarrow> [] | Some l \<Rightarrow> l)
                  in if SubListContains_loop l tok then l else l @ [tok])"
  have c: "SubListContains_loop l' tok"
    unfolding l'_def Let_def by (rule SubListContains_loop_append_self)
  have post: "\<exists>a s. token_map w' tok = Some a \<and> subscriptions w' a = Some s \<and>
      LSMessageAddress (message s) = LSMessageAddress msg \<and> key \<in> set (keys s) \<and>
      subscription_lists w' key = Some l'"
  proof (cases "token_map w tok")
    case None
    show ?thesis
    proof (cases "LSCall T registerServerStatus (serviceName_payload (LSMessageGetSender msg))")
      case noCall: None
      from assms show ?thesis
        unfolding CatalogAdd_failed [OF Some None noCall] by simp
    next
      case (Some watch)
      from assms show ?thesis
        unfolding CatalogAdd_created [OF \<open>LSMessageGetUniqueToken msg = Some tok\<close> None Some]
        by (auto simp: l'_def)
    qed
  next
    case known: (Some a)
    show ?thesis
    proof (cases "subscriptions w a")
      case None
      from assms show ?thesis
        unfolding CatalogAdd_dangling [OF Some known None] by simp
    next
      case sub: (Some s)
      show ?thesis
      proof (cases "LSMessageAddress (message s) = LSMessageAddress msg")
        case False
        from assms show ?thesis
          unfolding CatalogAdd_other_message [OF Some known sub False] by simp
      next
        case True
        from assms show ?thesis
          unfolding CatalogAdd_known [OF Some known sub True]
          using known sub True by (auto simp: l'_def)
      qed
    qed
  qed
  then obtain a s where "token_map w' tok = Some a" "subscriptions w' a = Some s"
      "LSMessageAddress (message s) = LSMessageAddress msg" "key \<in> set (keys s)"
      "subscription_lists w' key = Some l'"
    by blast
  then show ?thesis
    using c by (simp add: CatalogAdd_known [OF Some] map_upd_triv)
qed

lemma CatalogAdd_failed_again:
  assumes "CatalogAdd T key msg w = Some (False, w')"
  shows "\<exists>w''. CatalogAdd T key msg w' = Some (False, w'') \<and> catalog_state w'' = catalog_state w'"
proof (cases "LSMessageGetUniqueToken msg")
  case None
  with assms show ?thesis by (simp add: CatalogAdd_no_token)
next
  case (Some tok)
  show ?thesis
  proof (cases "token_map w tok")
    case None
    show ?thesis
    proof (cases "LSCall T registerServerStatus (serviceName_payload (LSMessageGetSender msg))")
      case noCall: None
      from assms have w': "w' = w\<lparr>subscription_lists :=
              (case subscription_lists w key of
                 None \<Rightarrow> (subscription_lists w)(key \<mapsto> [])
               | Some l \<Rightarrow> subscription_lists w),
            trace := trace w @ [MutexLock, MessageRef msg,
              Call registerServerStatus (serviceName_payload (LSMessageGetSender msg))
                (LSMessageGetToken msg),
              MessageUnref msg, MutexUnlock]\<rparr>"
        unfolding CatalogAdd_failed [OF Some None noCall] by simp
      have t: "token_map w' tok = None" using None by (simp add: w')
      have l: "subscription_lists w' key \<noteq> None"
        by (cases "subscription_lists w key") (simp_all add: w')
      show ?thesis
        unfolding CatalogAdd_failed [OF Some t noCall] using l
        by (auto simp: catalog_state_def)
    next
      case (Some watch)
      from assms show ?thesis
        unfolding CatalogAdd_created [OF \<open>LSMessageGetUniqueToken msg = Some tok\<close> None Some]
        by simp
    qed
  next
    case known: (Some a)
    show ?thesis
    proof (cases "subscriptions w a")
      case None
      from assms show ?thesis
        unfolding CatalogAdd_dangling [OF Some known None] by simp
    next
      case sub: (Some s)
      show ?thesis
      proof (cases "LSMessageAddress (message s) = LSMessageAddress msg")
        case False
        from assms show ?thesis
          unfolding CatalogAdd_other_message [OF Some known sub False] by simp
      next
        case True
        from assms show ?thesis
          unfolding CatalogAdd_known [OF Some known sub True] by simp
      qed
    qed
  qed
qed

subsection \<open>Well-formed catalogs stay well-formed\<close>

lemma catalog_inv_lists:
  "catalog_inv w \<Longrightarrow> subscription_lists w key = Some lst \<Longrightarrow> distinct (map (take 50) lst)"
  unfolding catalog_inv_def by blast

lemma catalog_inv_object:
  "catalog_inv w \<Longrightarrow> token_map w tok = Some a \<Longrightarrow>
   a < next_subscription w \<and> (\<exists>subs. subscriptions w a = Some subs \<and> 0 < ref subs)"
  unfolding catalog_inv_def by blast

lemma catalog_inv_inj:
  "catalog_inv w \<Longrightarrow> token_map w t1 = Some a \<Longrightarrow> token_map w t2 = Some a \<Longrightarrow> t1 = t2"
  unfolding catalog_inv_def by blast

lemma catalog_inv_trace [simp]: "catalog_inv (w\<lparr>trace := t\<rparr>) = catalog_inv w"
  by (simp add: catalog_inv_def)

lemma catalog_inv_emit [simp]:
  "catalog_inv (emit e w) = catalog_inv w"
  "catalog_inv (CatalogLock w) = catalog_inv w"
  "catalog_inv (CatalogUnlock w) = catalog_inv w"
  by (simp_all add: emit_def CatalogLock_def CatalogUnlock_def)

lemma catalog_inv_catalog_state [simp]: "catalog_inv (catalog_state w) = catalog_inv w"
  by (simp add: catalog_state_def)

lemma catalog_inv_CatalogNew: "catalog_inv CatalogNew"
  by (simp add: catalog_inv_def CatalogNew_def)

lemma distinct_prefix_added:
  assumes "distinct (map (take 50) l)"
  shows "distinct (map (take 50) (if SubListContains_loop l tok then l else l @ [tok]))"
proof (cases "SubListContains_loop l tok")
  case True
  with assms show ?thesis by simp
next
  case False
  then have "take 50 tok \<notin> take 50 ` set l"
    unfolding SubListContains_loop_iff by (metis imageE)
  with assms False show ?thesis by simp
qed

lemma catalog_inv_lists_added:
  assumes "catalog_inv w"
  shows "\<forall>k lst. ((subscription_lists w)(key \<mapsto>
                 (let l = (case subscription_lists w key of None \<Rightarrow> [] | Some l \<Rightarrow> l)
                  in if SubListContains_loop l tok then l else l @ [tok]))) k = Some lst
           \<longrightarrow> distinct (map (take 50) lst)"
proof (intro allI impI)
  fix k lst
  assume h: "((subscription_lists w)(key \<mapsto>
                 (let l = (case subscription_lists w key of None \<Rightarrow> [] | Some l \<Rightarrow> l)
                  in if SubListContains_loop l tok then l else l @ [tok]))) k = Some lst"
  show "distinct (map (take 50) lst)"
  proof (cases "k = key")
    case False
    with h have "subscription_lists w k = Some lst" by simp
    with assms show ?thesis by (rule catalog_inv_lists)
  next
    case True
    define l where "l = (case subscription_lists w key of None \<Rightarrow> [] | Some l \<Rightarrow> l)"
    have "distinct (map (take 50) l)"
      using assms by (cases "subscription_lists w key") (auto simp: l_def dest: catalog_inv_lists)
    then have "distinct (map (take 50) (if SubListContains_loop l tok then l else l @ [tok]))"
      by (rule distinct_prefix_added)
    moreover from h True have "lst = (if SubListContains_loop l tok then l else l @ [tok])"
      by (auto simp: l_def Let_def)
    ultimately show ?thesis by simp
  qed
qed

lemma catalog_inv_CatalogAdd:
  assumes inv: "catalog_inv w" and add: "CatalogAdd T key msg w = Some (r, w')"
  shows "catalog_inv w'"
proof (cases "LSMessageGetUniqueToken msg")
  case None
  with add inv show ?thesis by (simp add: CatalogAdd_no_token)
next
  case (Some tok)
  note lists = catalog_inv_lists_added [OF inv, of key tok]
  show ?thesis
  proof (cases "token_map w tok")
    case None
    show ?thesis
    proof (cases "LSCall T registerServerStatus (serviceName_payload (LSMessageGetSender msg))")
      case noCall: None
      have "catalog_inv (w\<lparr>subscription_lists :=
              (case subscription_lists w key of
                 None \<Rightarrow> (subscription_lists w)(key \<mapsto> [])
               | Some l \<Rightarrow> subscription_lists w)\<rparr>)"
        using inv unfolding catalog_inv_def
        by (cases "subscription_lists w key") auto
      with add show ?thesis
        unfolding CatalogAdd_failed [OF Some None noCall] by auto
    next
      case (Some watch)
      have fresh: "\<forall>t a. token_map w t = Some a \<longrightarrow> a < next_subscription w"
        using inv unfolding catalog_inv_def by blast
      have objs: "\<forall>t a. token_map w t = Some a \<longrightarrow> (\<exists>subs. subscriptions w a = Some subs \<and> 0 < ref subs)"
        using inv unfolding catalog_inv_def by blast
      have inj: "\<forall>t1 t2 a. token_map w t1 = Some a \<and> token_map w t2 = Some a \<longrightarrow> t1 = t2"
        using inv unfolding catalog_inv_def by blast
      from add have w': "w' = w\<lparr>token_map := (token_map w)(tok \<mapsto> next_subscription w),
            subscription_lists :=
              (subscription_lists w)(key \<mapsto>
                 (let l = (case subscription_lists w key of None \<Rightarrow> [] | Some l \<Rightarrow> l)
                  in if SubListContains_loop l tok then l else l @ [tok])),
            subscriptions := (subscriptions w)(next_subscription w \<mapsto>
               \<lparr>message = msg, keys = [key], serverStatusWatch = watch, ref = 1\<rparr>),
            next_subscription := next_subscription w + 1,
            trace := trace w @ [MutexLock, MessageRef msg,
              Call registerServerStatus (serviceName_payload (LSMessageGetSender msg))
                (LSMessageGetToken msg),
              MutexUnlock]\<rparr>"
        unfolding CatalogAdd_created [OF \<open>LSMessageGetUniqueToken msg = Some tok\<close> None Some]
        by simp
      have p1: "\<forall>k lst. subscription_lists w' k = Some lst \<longrightarrow> distinct (map (take 50) lst)"
        proof -
        have "subscription_lists w' = (subscription_lists w)(key \<mapsto>
                 (let l = (case subscription_lists w key of None \<Rightarrow> [] | Some l \<Rightarrow> l)
                  in if SubListContains_loop l tok then l else l @ [tok]))"
          by (simp add: w')
        then show ?thesis using lists by (simp only:)
      qed
      have p2: "\<forall>t a. token_map w' t = Some a \<longrightarrow>
          a < next_subscription w' \<and> (\<exists>subs. subscriptions w' a = Some subs \<and> 0 < ref subs)"
        using fresh objs by (auto simp: w' less_Suc_eq)
      have p3: "\<forall>t1 t2 a. token_map w' t1 = Some a \<and> token_map w' t2 = Some a \<longrightarrow> t1 = t2"
        using fresh inj by (auto simp: w' split: if_splits)
      from p1 p2 p3 show ?thesis unfolding catalog_inv_def by blast
    qed
  next
    case known: (Some a)
    show ?thesis
    proof (cases "subscriptions w a")
      case None
      from add show ?thesis
        unfolding CatalogAdd_dangling [OF Some known None] by simp
    next
      case sub: (Some s)
      show ?thesis
      proof (cases "LSMessageAddress (message s) = LSMessageAddress msg")
        case False
        from add show ?thesis
          unfolding CatalogAdd_other_message [OF Some known sub False] by simp
      next
        case True
        from add have w': "w' = w\<lparr>subscription_lists :=
              (subscription_lists w)(key \<mapsto>
                 (let l = (case subscription_lists w key of None \<Rightarrow> [] | Some l \<Rightarrow> l)
                  in if SubListContains_loop l tok then l else l @ [tok])),
            subscriptions :=
              (if key \<in> set (keys s) then subscriptions w
               else (subscriptions w)(a \<mapsto> s\<lparr>keys := keys s @ [key]\<rparr>)),
            trace := trace w @ [MutexLock, MutexUnlock]\<rparr>"
          unfolding CatalogAdd_known [OF Some known sub True] by simp
        have p1: "\<forall>k lst. subscription_lists w' k = Some lst \<longrightarrow> distinct (map (take 50) lst)"
          proof -
        have "subscription_lists w' = (subscription_lists w)(key \<mapsto>
                 (let l = (case subscription_lists w key of None \<Rightarrow> [] | Some l \<Rightarrow> l)
                  in if SubListContains_loop l tok then l else l @ [tok]))"
          by (simp add: w')
        then show ?thesis using lists by (simp only:)
      qed
        have objs: "\<forall>t a. token_map w t = Some a \<longrightarrow>
            a < next_subscription w \<and> (\<exists>subs. subscriptions w a = Some subs \<and> 0 < ref subs)"
          using inv unfolding catalog_inv_def by blast
        have refpos: "0 < ref s"
          using catalog_inv_object [OF inv known] sub by auto
        have p2: "\<forall>t a. token_map w' t = Some a \<longrightarrow>
            a < next_subscription w' \<and> (\<exists>subs. subscriptions w' a = Some subs \<and> 0 < ref subs)"
          using objs sub refpos by (auto simp: w')
        have p3: "\<forall>t1 t2 a. token_map w' t1 = Some a \<and> token_map w' t2 = Some a \<longrightarrow> t1 = t2"
          using inv unfolding catalog_inv_def by (simp add: w')
        from p1 p2 p3 show ?thesis unfolding catalog_inv_def by blast
      qed
    qed
  qed
qed

lemma catalog_inv_CatalogRemoveToken:
  assumes inv: "catalog_inv w" and rm: "CatalogRemoveToken tok notify w = Some (r, w')"
  shows "catalog_inv w'"
proof (cases "token_map w tok")
  case None
  with rm inv show ?thesis by (auto simp: CatalogRemoveToken_absent)
next
  case (Some a)
  from catalog_inv_object [OF inv Some] obtain s where
    s: "subscriptions w a = Some s" "0 < ref s" and lt: "a < next_subscription w"
    by blast
  from CatalogRemoveToken_present [OF Some s, of notify] rm
  have tm: "token_map w' = (token_map w)(tok := None)"
    and sl: "subscription_lists w' = CatalogRemoveToken_loop tok (keys s) (subscription_lists w)"
    and su: "subscriptions w' =
       (if ref s = 1 then (subscriptions w)(a := None)
        else (subscriptions w)(a \<mapsto> s\<lparr>ref := ref s - 1\<rparr>))"
    and nx: "next_subscription w' = next_subscription w"
    by auto
  have inv1: "\<forall>k l. subscription_lists w k = Some l \<longrightarrow> distinct (map (take 50) l)"
    using inv unfolding catalog_inv_def by blast
  have p1: "\<forall>k lst. subscription_lists w' k = Some lst \<longrightarrow> distinct (map (take 50) lst)"
    unfolding sl using CatalogRemoveToken_loop_inv [OF inv1] by blast
  have objs: "\<forall>t b. token_map w t = Some b \<longrightarrow>
            b < next_subscription w \<and> (\<exists>subs. subscriptions w b = Some subs \<and> 0 < ref subs)"
    using inv unfolding catalog_inv_def by blast
  have inj: "\<forall>t1 t2 b. token_map w t1 = Some b \<and> token_map w t2 = Some b \<longrightarrow> t1 = t2"
    using inv unfolding catalog_inv_def by blast
  have other: "\<forall>t b. t \<noteq> tok \<and> token_map w t = Some b \<longrightarrow> b \<noteq> a"
    using inj Some by blast
  have p2: "\<forall>t b. token_map w' t = Some b \<longrightarrow>
            b < next_subscription w' \<and> (\<exists>subs. subscriptions w' b = Some subs \<and> 0 < ref subs)"
    using objs other by (auto simp: tm su nx split: if_splits)
  have p3: "\<forall>t1 t2 b. token_map w' t1 = Some b \<and> token_map w' t2 = Some b \<longrightarrow> t1 = t2"
    using inj by (auto simp: tm split: if_splits)
  from p1 p2 p3 show ?thesis unfolding catalog_inv_def by blast
qed

lemma CatalogRemoveToken_total:
  assumes "catalog_inv w"
  shows "\<exists>r w'. CatalogRemoveToken tok notify w = Some (r, w')"
proof (cases "token_map w tok")
  case None
  then show ?thesis using CatalogRemoveToken_absent by blast
next
  case (Some a)
  from catalog_inv_object [OF assms Some] obtain s where
    s: "subscriptions w a = Some s" "0 < ref s" by blast
  from CatalogRemoveToken_present [OF Some s, of notify] show ?thesis by blast
qed

subsection \<open>The example inputs evaluated\<close>

lemma msg_simps [simp]:
  "LSMessageGetUniqueToken msgX = Some ''com.example.app.7''"
  "LSMessageGetUniqueToken msgY = Some ''com.example.viewer.3''"
  "LSMessageGetUniqueToken msgA = Some long_token_1"
  "LSMessageGetUniqueToken msgB = Some long_token_2"
  "LSMessageAddress msgX = 100" "LSMessageAddress msgY = 200"
  "LSMessageAddress msgA = 300" "LSMessageAddress msgB = 400"
  by (simp_all add: msgX_def msgY_def msgA_def msgB_def)

lemma transport_simps [simp]:
  "LSCall transport_up uri payload = Some 41"
  "LSCall transport_down uri payload = None"
  "LSMessageReply transport_up msg payload = True"
  "LSMessageReply transport_down msg payload = False"
  by (simp_all add: transport_up_def transport_down_def)

lemma SubListContains_loop_short [simp]:
  "SubListContains_loop [] d = False"
  "SubListContains_loop (t # l) d = (take 50 t = take 50 d \<or> SubListContains_loop l d)"
  by (auto simp: strncmp_eq_0_iff)

lemma catalog_XY_built:
  "\<exists>w1 w2 w3. CatalogAdd transport_up ''topicA'' msgX CatalogNew = Some (True, w1) \<and>
     CatalogAdd transport_up ''topicA'' msgY w1 = Some (True, w2) \<and>
     CatalogAdd transport_up ''topicB'' msgX w2 = Some (True, w3) \<and>
     catalog_state w3 = catalog_XY"
  by (simp add: CatalogAdd_created CatalogAdd_known CatalogNew_def catalog_XY_def
        catalog_state_def Let_def fun_upd_twist strncmp_eq_0_iff)

subsection \<open>Introspection\<close>

lemma GetJson_subscribers_total:
  assumes "\<forall>tok a. token_map w tok = Some a \<longrightarrow> subscriptions w a \<noteq> None"
  shows "\<exists>items. GetJson_subscribers w l = Some items"
proof (induction l)
  case Nil
  show ?case by simp
next
  case (Cons tok rest)
  then obtain items where rest: "GetJson_subscribers w rest = Some items" by blast
  show ?case
  proof (cases "token_map w tok")
    case None
    with rest show ?thesis by simp
  next
    case (Some a)
    with assms obtain sub where "subscriptions w a = Some sub" by blast
    with Some rest show ?thesis by simp
  qed
qed

lemma GetJson_keys_total:
  assumes "\<forall>tok a. token_map w tok = Some a \<longrightarrow> subscriptions w a \<noteq> None"
  shows "\<exists>arr. GetJson_keys w order = Some arr"
proof (induction order)
  case Nil
  show ?case by simp
next
  case (Cons key rest)
  then obtain arr where "GetJson_keys w rest = Some arr" by blast
  moreover have "\<And>l. \<exists>items. GetJson_subscribers w l = Some items"
    using assms by (rule GetJson_subscribers_total)
  ultimately show ?case
    by (cases "subscription_lists w key") (auto split: option.splits)
qed

lemma GetJson_keys_fst:
  "GetJson_keys w order = Some arr \<Longrightarrow>
   map fst arr = filter (\<lambda>key. subscription_lists w key \<noteq> None) order"
proof (induction order arbitrary: arr)
  case Nil
  then show ?case by simp
next
  case (Cons key rest)
  show ?case
  proof (cases "subscription_lists w key")
    case None
    with Cons show ?thesis by simp
  next
    case (Some l)
    with Cons.prems obtain items arr' where
      "GetJson_keys w rest = Some arr'" "arr = (key, items) # arr'"
      by (auto split: option.splits)
    with Cons.IH Some show ?thesis by simp
  qed
qed

lemma GetJson_keys_listed:
  assumes "GetJson_keys w order = Some arr"
  shows "key \<in> fst ` set arr \<longleftrightarrow> key \<in> set order \<and> subscription_lists w key \<noteq> None"
proof -
  have "fst ` set arr = set (map fst arr)" by simp
  also have "\<dots> = set (filter (\<lambda>key. subscription_lists w key \<noteq> None) order)"
    using GetJson_keys_fst [OF assms] by simp
  finally show ?thesis by auto
qed

lemma GetJson_subscribers_trace [simp]:
  "GetJson_subscribers (w\<lparr>trace := t\<rparr>) l = GetJson_subscribers w l"
  by (induction l) (auto split: option.splits)

lemma GetJson_keys_trace [simp]:
  "GetJson_keys (w\<lparr>trace := t\<rparr>) order = GetJson_keys w order"
  by (induction order) (auto split: option.splits)

lemma LSSubscriptionGetJson_eq:
  "LSSubscriptionGetJson order w =
     (case GetJson_keys w order of
        None \<Rightarrow> None
      | Some arr \<Rightarrow> Some (arr, w\<lparr>trace := trace w @ [MutexLock, MutexUnlock]\<rparr>))"
  by (simp add: LSSubscriptionGetJson_def Let_def CatalogLock_def CatalogUnlock_def emit_def
      split: option.splits)

lemma LSSubscriptionGetJson_inv:
  assumes "catalog_inv w"
  shows "\<exists>arr. LSSubscriptionGetJson order w =
           Some (arr, w\<lparr>trace := trace w @ [MutexLock, MutexUnlock]\<rparr>) \<and>
         (\<forall>key. key \<in> fst ` set arr \<longleftrightarrow> key \<in> set order \<and> subscription_lists w key \<noteq> None)"
proof -
  have "\<forall>tok a. token_map w tok = Some a \<longrightarrow> subscriptions w a \<noteq> None"
    using catalog_inv_object [OF assms] by fastforce
  then obtain arr where arr: "GetJson_keys w order = Some arr"
    using GetJson_keys_total by blast
  have "\<forall>key. key \<in> fst ` set arr \<longleftrightarrow> key \<in> set order \<and> subscription_lists w key \<noteq> None"
    using GetJson_keys_listed [OF arr] by blast
  with arr show ?thesis by (simp add: LSSubscriptionGetJson_eq)
qed

subsection \<open>Removal of a token\<close>

text \<open>
  What a removal does in a well-formed catalog. \<open>CatalogRemoveToken\<close> of an absent
  identifier returns false and changes nothing in the catalog. For an identifier \<open>tok\<close>
  present in \<open>token_map\<close> it returns true; \<open>tok\<close> is gone from \<open>token_map\<close>; for every
  key of the subscription's key set the list under that key is the old list without its
  first entry that agrees with \<open>tok\<close> on 50 characters, and is deleted when that leaves
  it empty, so no list of these keys still holds \<open>tok\<close> and none is empty; the lists of
  all other keys are as before; and the introspection of the new catalog, whatever the
  order of its walk, lists exactly the keys that still have a list. The entry removed is
  that of \<open>tok\<close> when the list holds \<open>tok\<close>; the last subsection has a list that does
  not.
\<close>

theorem CatalogRemoveToken_removes_token:
  "catalog_inv w \<Longrightarrow>
   (token_map w tok = None \<longrightarrow>
      (\<exists>w'. CatalogRemoveToken tok notify w = Some (False, w') \<and>
            catalog_state w' = catalog_state w)) \<and>
   (\<forall>a s. token_map w tok = Some a \<and> subscriptions w a = Some s \<longrightarrow>
      (\<exists>w'. CatalogRemoveToken tok notify w = Some (True, w') \<and>
         token_map w' = (token_map w)(tok := None) \<and>
         (\<forall>key\<in>set (keys s).
            subscription_lists w' key =
              (case subscription_lists w key of
                 None \<Rightarrow> None
               | Some l \<Rightarrow> if SubListRemove_loop l tok = [] then None
                           else Some (SubListRemove_loop l tok)) \<and>
            (\<forall>l. subscription_lists w key = Some l \<longrightarrow>
                 tok \<notin> set (SubListRemove_loop l tok) \<and>
                 (tok \<in> set l \<longrightarrow> SubListRemove_loop l tok = remove1 tok l)) \<and>
            (\<forall>l. subscription_lists w' key = Some l \<longrightarrow> l \<noteq> [] \<and> tok \<notin> set l)) \<and>
         (\<forall>key. key \<notin> set (keys s) \<longrightarrow> subscription_lists w' key = subscription_lists w key) \<and>
         (\<forall>order. \<exists>arr w''. LSSubscriptionGetJson order w' = Some (arr, w'') \<and>
            (\<forall>key. key \<in> fst ` set arr \<longleftrightarrow>
               key \<in> set order \<and> subscription_lists w' key \<noteq> None))))"
proof -
  assume inv: "catalog_inv w"
  have absent: "token_map w tok = None \<longrightarrow>
      (\<exists>w'. CatalogRemoveToken tok notify w = Some (False, w') \<and>
            catalog_state w' = catalog_state w)"
    by (simp add: CatalogRemoveToken_absent catalog_state_def)
  have present: "\<exists>w'. CatalogRemoveToken tok notify w = Some (True, w') \<and>
         token_map w' = (token_map w)(tok := None) \<and>
         (\<forall>key\<in>set (keys s).
            subscription_lists w' key =
              (case subscription_lists w key of
                 None \<Rightarrow> None
               | Some l \<Rightarrow> if SubListRemove_loop l tok = [] then None
                           else Some (SubListRemove_loop l tok)) \<and>
            (\<forall>l. subscription_lists w key = Some l \<longrightarrow>
                 tok \<notin> set (SubListRemove_loop l tok) \<and>
                 (tok \<in> set l \<longrightarrow> SubListRemove_loop l tok = remove1 tok l)) \<and>
            (\<forall>l. subscription_lists w' key = Some l \<longrightarrow> l \<noteq> [] \<and> tok \<notin> set l)) \<and>
         (\<forall>key. key \<notin> set (keys s) \<longrightarrow> subscription_lists w' key = subscription_lists w key) \<and>
         (\<forall>order. \<exists>arr w''. LSSubscriptionGetJson order w' = Some (arr, w'') \<and>
            (\<forall>key. key \<in> fst ` set arr \<longleftrightarrow>
               key \<in> set order \<and> subscription_lists w' key \<noteq> None))"
    if tm: "token_map w tok = Some a" and sub: "subscriptions w a = Some s" for a s
  proof -
    have refpos: "0 < ref s"
      using catalog_inv_object [OF inv tm] sub by auto
    from CatalogRemoveToken_present [OF tm sub refpos, of notify] obtain w' where
      rm: "CatalogRemoveToken tok notify w = Some (True, w')"
      and tm': "token_map w' = (token_map w)(tok := None)"
      and sl: "subscription_lists w' = CatalogRemoveToken_loop tok (keys s) (subscription_lists w)"
      by blast
    have inv1: "\<forall>k l. subscription_lists w k = Some l \<longrightarrow> distinct (map (take 50) l)"
      using inv unfolding catalog_inv_def by blast
    have member: "subscription_lists w' key =
              (case subscription_lists w key of
                 None \<Rightarrow> None
               | Some l \<Rightarrow> if SubListRemove_loop l tok = [] then None
                           else Some (SubListRemove_loop l tok))"
      if "key \<in> set (keys s)" for key
      unfolding sl by (rule CatalogRemoveToken_loop_member [OF that inv1])
    have old: "tok \<notin> set (SubListRemove_loop l tok) \<and>
                 (tok \<in> set l \<longrightarrow> SubListRemove_loop l tok = remove1 tok l)"
      if "subscription_lists w key = Some l" for key l
    proof -
      from inv1 that have d: "distinct (map (take 50) l)" by blast
      show ?thesis
        using SubListRemove_loop_not_member [OF d] SubListRemove_loop_remove1 [OF d] by blast
    qed
    have new: "l \<noteq> [] \<and> tok \<notin> set l"
      if k: "key \<in> set (keys s)" and l: "subscription_lists w' key = Some l" for key l
    proof (cases "subscription_lists w key")
      case None
      with member [OF k] l show ?thesis by simp
    next
      case (Some l0)
      with member [OF k] l have "l = SubListRemove_loop l0 tok" "l \<noteq> []"
        by (auto split: if_splits)
      with old [OF Some] show ?thesis by simp
    qed
    have other: "subscription_lists w' key = subscription_lists w key"
      if "key \<notin> set (keys s)" for key
      unfolding sl using that by (rule CatalogRemoveToken_loop_other)
    have inv': "catalog_inv w'"
      using inv rm by (rule catalog_inv_CatalogRemoveToken)
    have json: "\<exists>arr w''. LSSubscriptionGetJson order w' = Some (arr, w'') \<and>
            (\<forall>key. key \<in> fst ` set arr \<longleftrightarrow>
               key \<in> set order \<and> subscription_lists w' key \<noteq> None)" for order
      using LSSubscriptionGetJson_inv [OF inv', of order] by blast
    from rm tm' member old new other json show ?thesis
      by (intro exI [of _ w'] conjI ballI allI impI) blast+
  qed
  from absent present show ?thesis by blast
qed

lemma catalog_inv_catalog_XY: "catalog_inv catalog_XY"
  unfolding catalog_inv_def catalog_XY_def
  by (auto split: if_splits)

theorem CatalogRemoveToken_removes_token_witness:
  "catalog_inv catalog_XY \<and>
   token_map catalog_XY ''com.example.app.7'' = Some 0 \<and>
   (\<exists>w'. CatalogRemoveToken ''com.example.app.7'' True catalog_XY = Some (True, w') \<and>
      token_map w' ''com.example.app.7'' = None \<and>
      subscription_lists w' ''topicA'' = Some [''com.example.viewer.3''] \<and>
      subscription_lists w' ''topicB'' = None \<and>
      (\<exists>arr w''. LSSubscriptionGetJson [''topicA'', ''topicB''] w' = Some (arr, w'') \<and>
         ''topicA'' \<in> fst ` set arr \<and> ''topicB'' \<notin> fst ` set arr)) \<and>
   token_map catalog_XY ''com.example.nobody.1'' = None \<and>
   (\<exists>w'. CatalogRemoveToken ''com.example.nobody.1'' True catalog_XY = Some (False, w') \<and>
      catalog_state w' = catalog_state catalog_XY)"
proof -
  note T = CatalogRemoveToken_removes_token [OF catalog_inv_catalog_XY]
  have tm: "token_map catalog_XY ''com.example.app.7'' = Some 0"
    by (simp add: catalog_XY_def)
  have sub: "subscriptions catalog_XY 0 =
      Some \<lparr>message = msgX, keys = [''topicA'', ''topicB''], serverStatusWatch = 41, ref = 1\<rparr>"
    by (simp add: catalog_XY_def)
  have la: "subscription_lists catalog_XY ''topicA'' =
      Some [''com.example.app.7'', ''com.example.viewer.3'']"
    and lb: "subscription_lists catalog_XY ''topicB'' = Some [''com.example.app.7'']"
    by (simp_all add: catalog_XY_def)
  from T [of "''com.example.app.7''" True, THEN conjunct2, THEN spec, THEN spec, THEN mp,
          OF conjI [OF tm sub]]
  obtain w' where rm: "CatalogRemoveToken ''com.example.app.7'' True catalog_XY = Some (True, w')"
    and tm': "token_map w' = (token_map catalog_XY)(''com.example.app.7'' := None)"
    and lists: "\<forall>key\<in>set [''topicA'', ''topicB''].
        subscription_lists w' key =
          (case subscription_lists catalog_XY key of
             None \<Rightarrow> None
           | Some l \<Rightarrow> if SubListRemove_loop l ''com.example.app.7'' = [] then None
                       else Some (SubListRemove_loop l ''com.example.app.7''))"
    and json: "\<forall>order. \<exists>arr w''. LSSubscriptionGetJson order w' = Some (arr, w'') \<and>
            (\<forall>key. key \<in> fst ` set arr \<longleftrightarrow>
               key \<in> set order \<and> subscription_lists w' key \<noteq> None)"
    by auto
  have a': "subscription_lists w' ''topicA'' = Some [''com.example.viewer.3'']"
    using lists la by (simp add: strncmp_eq_0_iff)
  have b': "subscription_lists w' ''topicB'' = None"
    using lists lb by (simp add: strncmp_eq_0_iff)
  from json obtain arr w'' where
    j: "LSSubscriptionGetJson [''topicA'', ''topicB''] w' = Some (arr, w'')"
    and k: "\<forall>key. key \<in> fst ` set arr \<longleftrightarrow>
               key \<in> set [''topicA'', ''topicB''] \<and> subscription_lists w' key \<noteq> None"
    by blast
  from k a' b' have ka: "''topicA'' \<in> fst ` set arr" and kb: "''topicB'' \<notin> fst ` set arr"
    by simp_all
  have none: "token_map catalog_XY ''com.example.nobody.1'' = None"
    by (simp add: catalog_XY_def)
  from T [of "''com.example.nobody.1''" True, THEN conjunct1, THEN mp, OF none]
  have absent: "\<exists>w'. CatalogRemoveToken ''com.example.nobody.1'' True catalog_XY = Some (False, w') \<and>
      catalog_state w' = catalog_state catalog_XY" .
  have gone: "token_map w' ''com.example.app.7'' = None"
    by (simp add: tm')
  from catalog_inv_catalog_XY tm rm gone a' b' j ka kb none absent show ?thesis
    by blast
qed

subsection \<open>Cancel messages\<close>

lemma printf_d_7: "printf_d 7 = ''7''"
  by (simp add: printf_d_def string_of_nat.simps digit_char_def)

text \<open>\<open>printf_d\<close> writes the decimal text of its argument, and no other text reads as it.\<close>

lemma digit_cases: "d < 10 \<Longrightarrow> d \<in> {0, 1, 2, 3, 4, 5, 6, 7, 8, 9::nat}"
  by auto

lemma digit_value_digit_char: "d < 10 \<Longrightarrow> digit_value (digit_char d) = d"
  by (drule digit_cases) (auto simp: digit_value_def digit_char_def)

lemma is_digit_digit_char: "d < 10 \<Longrightarrow> is_digit (digit_char d)"
  by (drule digit_cases) (auto simp: is_digit_def digit_char_def)

lemma digit_char_eq_0: "d < 10 \<Longrightarrow> digit_char d = CHR ''0'' \<longleftrightarrow> d = 0"
  by (drule digit_cases) (auto simp: digit_char_def)

lemma decimal_nat_snoc: "decimal_nat (s @ [c]) = 10 * decimal_nat s + digit_value c"
  by (simp add: decimal_nat_def)

lemma decimal_nat_single: "decimal_nat [c] = digit_value c"
  by (simp add: decimal_nat_def)

lemma decimal_nat_string_of_nat: "decimal_nat (string_of_nat n) = n"
proof (induction n rule: string_of_nat.induct)
  case (1 n)
  show ?case
  proof (cases "n < 10")
    case True
    then show ?thesis
      by (subst string_of_nat.simps) (simp add: decimal_nat_single digit_value_digit_char)
  next
    case False
    with 1 have "decimal_nat (string_of_nat (n div 10)) = n div 10" by simp
    with False show ?thesis
      by (subst string_of_nat.simps) (simp add: decimal_nat_snoc digit_value_digit_char)
  qed
qed

lemma string_of_nat_digits: "list_all is_digit (string_of_nat n)"
proof (induction n rule: string_of_nat.induct)
  case (1 n)
  show ?case
  proof (cases "n < 10")
    case True
    then show ?thesis
      by (subst string_of_nat.simps) (simp add: is_digit_digit_char)
  next
    case False
    with 1 have "list_all is_digit (string_of_nat (n div 10))" by simp
    with False show ?thesis
      by (subst string_of_nat.simps) (simp add: is_digit_digit_char)
  qed
qed

lemma string_of_nat_not_Nil: "string_of_nat n \<noteq> []"
  by (subst string_of_nat.simps) simp

lemma hd_string_of_nat: "hd (string_of_nat n) = CHR ''0'' \<longleftrightarrow> n = 0"
proof (induction n rule: string_of_nat.induct)
  case (1 n)
  show ?case
  proof (cases "n < 10")
    case True
    then show ?thesis
      by (subst string_of_nat.simps) (simp add: digit_char_eq_0)
  next
    case False
    with 1 have "hd (string_of_nat (n div 10)) = CHR ''0'' \<longleftrightarrow> n div 10 = 0" by simp
    moreover from False have "n div 10 \<noteq> 0" by simp
    ultimately show ?thesis using False
      by (subst string_of_nat.simps) (simp add: string_of_nat_not_Nil)
  qed
qed

lemma string_of_nat_eq_0: "string_of_nat n = ''0'' \<longleftrightarrow> n = 0"
proof (cases "n < 10")
  case True
  then show ?thesis
    by (subst string_of_nat.simps) (simp add: digit_char_eq_0)
next
  case False
  then show ?thesis
    by (subst string_of_nat.simps) (simp add: string_of_nat_not_Nil)
qed

lemma plain_decimal_string_of_nat: "plain_decimal (string_of_nat n)"
  by (simp add: plain_decimal_def string_of_nat_not_Nil string_of_nat_digits
      hd_string_of_nat string_of_nat_eq_0)

lemma string_of_nat_no_sign: "string_of_nat n = c # cs \<Longrightarrow> c \<noteq> CHR ''-''"
proof
  assume s: "string_of_nat n = c # cs" and c: "c = CHR ''-''"
  from string_of_nat_digits [of n] s have "is_digit c" by simp
  with c show False by (simp add: is_digit_def)
qed

lemma decimal_int_printf_d: "decimal_int (printf_d i) = Some i"
proof (cases "i < 0")
  case True
  then have "string_of_nat (nat (- i)) \<noteq> ''0''"
    by (simp add: string_of_nat_eq_0)
  with True show ?thesis
    by (simp add: decimal_int_def printf_d_def plain_decimal_string_of_nat
        decimal_nat_string_of_nat)
next
  case False
  obtain c cs where s: "string_of_nat (nat i) = c # cs"
    using string_of_nat_not_Nil [of "nat i"] by (cases "string_of_nat (nat i)") auto
  from string_of_nat_no_sign [OF s] have c: "c \<noteq> CHR ''-''" .
  have "plain_decimal (c # cs)" "decimal_nat (c # cs) = nat i"
    using plain_decimal_string_of_nat [of "nat i"] decimal_nat_string_of_nat [of "nat i"]
    by (simp_all add: s)
  with False c show ?thesis
    by (simp add: decimal_int_def printf_d_def s)
qed


lemma is_digit_cases: "is_digit c \<Longrightarrow> c \<in> set ''0123456789''"
proof -
  assume "is_digit c"
  then have "(of_char c :: nat) = 48 \<or> (of_char c :: nat) = 49 \<or> (of_char c :: nat) = 50 \<or>
      (of_char c :: nat) = 51 \<or> (of_char c :: nat) = 52 \<or> (of_char c :: nat) = 53 \<or>
      (of_char c :: nat) = 54 \<or> (of_char c :: nat) = 55 \<or> (of_char c :: nat) = 56 \<or>
      (of_char c :: nat) = 57"
    unfolding is_digit_def by arith
  then have "(of_char c :: nat) = of_char CHR ''0'' \<or> (of_char c :: nat) = of_char CHR ''1'' \<or>
      (of_char c :: nat) = of_char CHR ''2'' \<or> (of_char c :: nat) = of_char CHR ''3'' \<or>
      (of_char c :: nat) = of_char CHR ''4'' \<or> (of_char c :: nat) = of_char CHR ''5'' \<or>
      (of_char c :: nat) = of_char CHR ''6'' \<or> (of_char c :: nat) = of_char CHR ''7'' \<or>
      (of_char c :: nat) = of_char CHR ''8'' \<or> (of_char c :: nat) = of_char CHR ''9''"
    by simp
  then show ?thesis
    unfolding of_char_eq_iff by simp
qed

lemma digit_char_digit_value: "is_digit c \<Longrightarrow> digit_char (digit_value c) = c"
  by (drule is_digit_cases) (auto simp: digit_char_def digit_value_def)

lemma digit_value_less: "is_digit c \<Longrightarrow> digit_value c < 10"
  by (auto simp: is_digit_def digit_value_def)

lemma string_of_nat_decimal_nat: "plain_decimal s \<Longrightarrow> string_of_nat (decimal_nat s) = s"
proof (induction s rule: rev_induct)
  case Nil
  then show ?case by (simp add: plain_decimal_def)
next
  case (snoc c xs)
  from snoc.prems have c: "is_digit c" and xs: "list_all is_digit xs"
    by (simp_all add: plain_decimal_def)
  show ?case
  proof (cases "xs = []")
    case True
    with c show ?thesis
      by (subst string_of_nat.simps)
         (simp add: decimal_nat_single digit_value_less digit_char_digit_value)
  next
    case False
    with snoc.prems have "hd xs \<noteq> CHR ''0''"
      by (simp add: plain_decimal_def)
    with False xs have p: "plain_decimal xs"
      by (auto simp: plain_decimal_def)
    from snoc.IH [OF p] have ih: "string_of_nat (decimal_nat xs) = xs" .
    have "decimal_nat xs \<noteq> 0"
    proof
      assume "decimal_nat xs = 0"
      with ih string_of_nat_eq_0 [of 0] have "xs = ''0''" by simp
      with \<open>hd xs \<noteq> CHR ''0''\<close> show False by simp
    qed
    with digit_value_less [OF c] ih show ?thesis
      by (subst string_of_nat.simps)
         (simp add: decimal_nat_snoc digit_char_digit_value [OF c])
  qed
qed

lemma decimal_int_iff: "decimal_int s = Some i \<longleftrightarrow> s = printf_d i"
proof
  assume "s = printf_d i"
  then show "decimal_int s = Some i" by (simp add: decimal_int_printf_d)
next
  assume d: "decimal_int s = Some i"
  then obtain c cs where s: "s = c # cs"
    by (cases s) (simp_all add: decimal_int_def)
  show "s = printf_d i"
  proof (cases "c = CHR ''-''")
    case True
    with d s have p: "plain_decimal cs" and n0: "cs \<noteq> ''0''" and i: "i = - int (decimal_nat cs)"
      by (auto simp: decimal_int_def split: if_splits)
    from string_of_nat_decimal_nat [OF p] have r: "string_of_nat (decimal_nat cs) = cs" .
    have "decimal_nat cs \<noteq> 0"
    proof
      assume "decimal_nat cs = 0"
      with r string_of_nat_eq_0 [of 0] have "cs = ''0''" by simp
      with n0 show False by simp
    qed
    with i r s True show ?thesis
      by (simp add: printf_d_def)
  next
    case False
    with d s have p: "plain_decimal s" and i: "i = int (decimal_nat s)"
      by (auto simp: decimal_int_def split: if_splits)
    from string_of_nat_decimal_nat [OF p] i show ?thesis
      by (simp add: printf_d_def)
  qed
qed

text \<open>
  C5. \<open>CatalogHandleCancel\<close> fails, with the catalog as it was, when the payload does not
  parse or has no \<open>token\<close> field. Otherwise the identifier it builds is the sender, a dot
  and the decimal text of the token the reader gives (the one text \<open>decimal_int\<close> reads
  as that number); it calls \<open>CatalogRemoveToken\<close> on it with \<open>notify = True\<close> and returns
  true whatever that call returned. In a well-formed catalog the call returns, the
  identifier is not in \<open>token_map\<close> afterwards, and when it was not there before the
  catalog is unchanged.
\<close>

theorem CatalogHandleCancel_removes_sender_token:
  "(json_tokener_parse J (LSMessageGetPayload cancelMsg) = None \<longrightarrow>
      CatalogHandleCancel J cancelMsg w = Some (False, w)) \<and>
   (\<forall>obj. json_tokener_parse J (LSMessageGetPayload cancelMsg) = Some obj \<and>
          json_object_object_get_ex J obj ''token'' = None \<longrightarrow>
      CatalogHandleCancel J cancelMsg w = Some (False, w)) \<and>
   (\<forall>obj tokenObj.
      json_tokener_parse J (LSMessageGetPayload cancelMsg) = Some obj \<and>
      json_object_object_get_ex J obj ''token'' = Some tokenObj \<longrightarrow>
        (\<exists>digits uniqueToken.
           decimal_int digits = Some (json_object_get_int J tokenObj) \<and>
           uniqueToken = LSMessageGetSender cancelMsg @ ''.'' @ digits \<and>
           CatalogHandleCancel J cancelMsg w =
             (case CatalogRemoveToken uniqueToken True w of
                None \<Rightarrow> None
              | Some (found, w') \<Rightarrow> Some (True, w')) \<and>
           (catalog_inv w \<longrightarrow>
              (\<exists>found w'. CatalogRemoveToken uniqueToken True w = Some (found, w') \<and>
                 CatalogHandleCancel J cancelMsg w = Some (True, w') \<and>
                 found = (token_map w uniqueToken \<noteq> None) \<and>
                 token_map w' uniqueToken = None \<and>
                 (token_map w uniqueToken = None \<longrightarrow> catalog_state w' = catalog_state w)))))"
proof -
  have unparsable: "json_tokener_parse J (LSMessageGetPayload cancelMsg) = None \<longrightarrow>
      CatalogHandleCancel J cancelMsg w = Some (False, w)"
    by (simp add: CatalogHandleCancel_def)
  have no_field: "\<forall>obj. json_tokener_parse J (LSMessageGetPayload cancelMsg) = Some obj \<and>
          json_object_object_get_ex J obj ''token'' = None \<longrightarrow>
      CatalogHandleCancel J cancelMsg w = Some (False, w)"
    by (simp add: CatalogHandleCancel_def)
  have well_formed: "\<exists>digits uniqueToken.
           decimal_int digits = Some (json_object_get_int J tokenObj) \<and>
           uniqueToken = LSMessageGetSender cancelMsg @ ''.'' @ digits \<and>
           CatalogHandleCancel J cancelMsg w =
             (case CatalogRemoveToken uniqueToken True w of
                None \<Rightarrow> None
              | Some (found, w') \<Rightarrow> Some (True, w')) \<and>
           (catalog_inv w \<longrightarrow>
              (\<exists>found w'. CatalogRemoveToken uniqueToken True w = Some (found, w') \<and>
                 CatalogHandleCancel J cancelMsg w = Some (True, w') \<and>
                 found = (token_map w uniqueToken \<noteq> None) \<and>
                 token_map w' uniqueToken = None \<and>
                 (token_map w uniqueToken = None \<longrightarrow> catalog_state w' = catalog_state w)))"
    if p: "json_tokener_parse J (LSMessageGetPayload cancelMsg) = Some obj"
      and f: "json_object_object_get_ex J obj ''token'' = Some tokenObj"
    for obj tokenObj
  proof -
    define digits where "digits = printf_d (json_object_get_int J tokenObj)"
    define uniqueToken where "uniqueToken = LSMessageGetSender cancelMsg @ ''.'' @ digits"
    have d: "decimal_int digits = Some (json_object_get_int J tokenObj)"
      unfolding digits_def by (rule decimal_int_printf_d)
    have call: "CatalogHandleCancel J cancelMsg w =
          (case CatalogRemoveToken uniqueToken True w of
             None \<Rightarrow> None
           | Some (found, w') \<Rightarrow> Some (True, w'))"
      using p f by (simp add: CatalogHandleCancel_def Let_def uniqueToken_def digits_def)
    have "\<exists>found w'. CatalogRemoveToken uniqueToken True w = Some (found, w') \<and>
              CatalogHandleCancel J cancelMsg w = Some (True, w') \<and>
              found = (token_map w uniqueToken \<noteq> None) \<and>
              token_map w' uniqueToken = None \<and>
              (token_map w uniqueToken = None \<longrightarrow> catalog_state w' = catalog_state w)"
      if inv: "catalog_inv w"
    proof (cases "token_map w uniqueToken")
      case None
      then show ?thesis
        unfolding call by (auto simp: CatalogRemoveToken_absent catalog_state_def)
    next
      case (Some a)
      from catalog_inv_object [OF inv Some] obtain s where
        s: "subscriptions w a = Some s" "0 < ref s" by blast
      from CatalogRemoveToken_present [OF Some s, of True] obtain w' where
        "CatalogRemoveToken uniqueToken True w = Some (True, w')"
        "token_map w' = (token_map w)(uniqueToken := None)"
        by blast
      with Some show ?thesis unfolding call by auto
    qed
    then have wf: "catalog_inv w \<longrightarrow>
        (\<exists>found w'. CatalogRemoveToken uniqueToken True w = Some (found, w') \<and>
              CatalogHandleCancel J cancelMsg w = Some (True, w') \<and>
              found = (token_map w uniqueToken \<noteq> None) \<and>
              token_map w' uniqueToken = None \<and>
              (token_map w uniqueToken = None \<longrightarrow> catalog_state w' = catalog_state w))"
      by (rule impI)
    show ?thesis
      by (rule exI [of _ digits], rule exI [of _ uniqueToken])
         (rule conjI [OF d conjI [OF uniqueToken_def conjI [OF call wf]]])
  qed
  have "\<exists>digits uniqueToken.
           decimal_int digits = Some (json_object_get_int J tokenObj) \<and>
           uniqueToken = LSMessageGetSender cancelMsg @ ''.'' @ digits \<and>
           CatalogHandleCancel J cancelMsg w =
             (case CatalogRemoveToken uniqueToken True w of
                None \<Rightarrow> None
              | Some (found, w') \<Rightarrow> Some (True, w')) \<and>
           (catalog_inv w \<longrightarrow>
              (\<exists>found w'. CatalogRemoveToken uniqueToken True w = Some (found, w') \<and>
                 CatalogHandleCancel J cancelMsg w = Some (True, w') \<and>
                 found = (token_map w uniqueToken \<noteq> None) \<and>
                 token_map w' uniqueToken = None \<and>
                 (token_map w uniqueToken = None \<longrightarrow> catalog_state w' = catalog_state w)))"
    if pf: "json_tokener_parse J (LSMessageGetPayload cancelMsg) = Some obj \<and>
      json_object_object_get_ex J obj ''token'' = Some tokenObj"
    for obj tokenObj
    using well_formed [OF conjunct1 [OF pf] conjunct2 [OF pf]] .
  then have parsed: "\<forall>obj tokenObj.
      json_tokener_parse J (LSMessageGetPayload cancelMsg) = Some obj \<and>
      json_object_object_get_ex J obj ''token'' = Some tokenObj \<longrightarrow>
        (\<exists>digits uniqueToken.
           decimal_int digits = Some (json_object_get_int J tokenObj) \<and>
           uniqueToken = LSMessageGetSender cancelMsg @ ''.'' @ digits \<and>
           CatalogHandleCancel J cancelMsg w =
             (case CatalogRemoveToken uniqueToken True w of
                None \<Rightarrow> None
              | Some (found, w') \<Rightarrow> Some (True, w')) \<and>
           (catalog_inv w \<longrightarrow>
              (\<exists>found w'. CatalogRemoveToken uniqueToken True w = Some (found, w') \<and>
                 CatalogHandleCancel J cancelMsg w = Some (True, w') \<and>
                 found = (token_map w uniqueToken \<noteq> None) \<and>
                 token_map w' uniqueToken = None \<and>
                 (token_map w uniqueToken = None \<longrightarrow> catalog_state w' = catalog_state w))))"
    by (intro allI impI)
  show ?thesis
    by (rule conjI [OF unparsable conjI [OF no_field parsed]])
qed

lemma example_reader_simps [simp]:
  "json_tokener_parse example_reader ''{\"token\":7}'' = Some (JObject [(''token'', JInt 7)])"
  "json_tokener_parse example_reader ''{\"subscribe\":true}'' = Some (JObject [(''subscribe'', JBool True)])"
  "json_tokener_parse example_reader ''{\"subscribe\":false}'' = Some (JObject [(''subscribe'', JBool False)])"
  "json_tokener_parse example_reader ''{}'' = Some (JObject [])"
  "json_tokener_parse example_reader ''not json'' = None"
  "json_object_object_get_ex example_reader (JObject fs) field = map_of fs field"
  "json_object_get_int example_reader (JInt i) = i"
  "json_object_get_boolean example_reader (JBool b) = b"
  by (simp_all add: example_reader_def)

theorem CatalogHandleCancel_removes_sender_token_witness:
  "json_tokener_parse example_reader (LSMessageGetPayload cancelX) =
     Some (JObject [(''token'', JInt 7)]) \<and>
   json_object_object_get_ex example_reader (JObject [(''token'', JInt 7)]) ''token'' =
     Some (JInt 7) \<and>
   decimal_int ''7'' = Some (json_object_get_int example_reader (JInt 7)) \<and>
   ''com.example.app.7'' = LSMessageGetSender cancelX @ ''.'' @ ''7'' \<and>
   catalog_inv catalog_XY \<and>
   (\<exists>w'. CatalogHandleCancel example_reader cancelX catalog_XY = Some (True, w') \<and>
         token_map catalog_XY ''com.example.app.7'' \<noteq> None \<and>
         token_map w' ''com.example.app.7'' = None) \<and>
   catalog_inv CatalogNew \<and>
   (\<exists>w'. CatalogHandleCancel example_reader cancelX CatalogNew = Some (True, w') \<and>
         catalog_state w' = catalog_state CatalogNew)"
proof -
  have p: "json_tokener_parse example_reader (LSMessageGetPayload cancelX) =
      Some (JObject [(''token'', JInt 7)])"
    by (simp add: cancelX_def)
  have f: "json_object_object_get_ex example_reader (JObject [(''token'', JInt 7)]) ''token'' =
      Some (JInt 7)"
    by simp
  have seven: "digits = ''7''"
    if "decimal_int digits = Some (json_object_get_int example_reader (JInt 7))" for digits
    using that unfolding decimal_int_iff by (simp add: printf_d_7)
  have d: "decimal_int ''7'' = Some (json_object_get_int example_reader (JInt 7))"
    unfolding decimal_int_iff by (simp add: printf_d_7)
  have u: "''com.example.app.7'' = LSMessageGetSender cancelX @ ''.'' @ ''7''"
    by (simp add: cancelX_def)
  have there: "token_map catalog_XY ''com.example.app.7'' \<noteq> None"
    by (simp add: catalog_XY_def)
  have absent: "token_map CatalogNew ''com.example.app.7'' = None"
    by (simp add: CatalogNew_def)
  have one: "\<exists>w'. CatalogHandleCancel example_reader cancelX catalog_XY = Some (True, w') \<and>
         token_map catalog_XY ''com.example.app.7'' \<noteq> None \<and>
         token_map w' ''com.example.app.7'' = None"
  proof -
    from CatalogHandleCancel_removes_sender_token
      [of example_reader cancelX catalog_XY, THEN conjunct2, THEN conjunct2, THEN spec, THEN spec,
       THEN mp, OF conjI [OF p f]]
    obtain digits uniqueToken where
      dg: "decimal_int digits = Some (json_object_get_int example_reader (JInt 7))"
      and ut: "uniqueToken = LSMessageGetSender cancelX @ ''.'' @ digits"
      and inv: "catalog_inv catalog_XY \<longrightarrow>
         (\<exists>found w'. CatalogRemoveToken uniqueToken True catalog_XY = Some (found, w') \<and>
            CatalogHandleCancel example_reader cancelX catalog_XY = Some (True, w') \<and>
            found = (token_map catalog_XY uniqueToken \<noteq> None) \<and>
            token_map w' uniqueToken = None \<and>
            (token_map catalog_XY uniqueToken = None \<longrightarrow>
               catalog_state w' = catalog_state catalog_XY))"
      by (elim exE conjE)
    have ue: "uniqueToken = ''com.example.app.7''"
      unfolding ut seven [OF dg] by (rule u [symmetric])
    from inv [THEN mp, OF catalog_inv_catalog_XY] obtain found w' where
      hc: "CatalogHandleCancel example_reader cancelX catalog_XY = Some (True, w')"
      and gone: "token_map w' uniqueToken = None"
      by (elim exE conjE)
    from gone have gone': "token_map w' ''com.example.app.7'' = None"
      unfolding ue .
    show ?thesis
      by (rule exI [of _ w'], rule conjI [OF hc conjI [OF there gone']])
  qed
  have two: "\<exists>w'. CatalogHandleCancel example_reader cancelX CatalogNew = Some (True, w') \<and>
         catalog_state w' = catalog_state CatalogNew"
  proof -
    from CatalogHandleCancel_removes_sender_token
      [of example_reader cancelX CatalogNew, THEN conjunct2, THEN conjunct2, THEN spec, THEN spec,
       THEN mp, OF conjI [OF p f]]
    obtain digits uniqueToken where
      dg: "decimal_int digits = Some (json_object_get_int example_reader (JInt 7))"
      and ut: "uniqueToken = LSMessageGetSender cancelX @ ''.'' @ digits"
      and inv: "catalog_inv CatalogNew \<longrightarrow>
         (\<exists>found w'. CatalogRemoveToken uniqueToken True CatalogNew = Some (found, w') \<and>
            CatalogHandleCancel example_reader cancelX CatalogNew = Some (True, w') \<and>
            found = (token_map CatalogNew uniqueToken \<noteq> None) \<and>
            token_map w' uniqueToken = None \<and>
            (token_map CatalogNew uniqueToken = None \<longrightarrow>
               catalog_state w' = catalog_state CatalogNew))"
      by (elim exE conjE)
    have ue: "uniqueToken = ''com.example.app.7''"
      unfolding ut seven [OF dg] by (rule u [symmetric])
    from inv [THEN mp, OF catalog_inv_CatalogNew] obtain found w' where
      hc: "CatalogHandleCancel example_reader cancelX CatalogNew = Some (True, w')"
      and same: "token_map CatalogNew uniqueToken = None \<longrightarrow>
               catalog_state w' = catalog_state CatalogNew"
      by (elim exE conjE)
    from same [unfolded ue, THEN mp, OF absent]
    have same': "catalog_state w' = catalog_state CatalogNew" .
    show ?thesis
      by (rule exI [of _ w'], rule conjI [OF hc same'])
  qed
  show ?thesis
    by (rule conjI [OF p conjI [OF f conjI [OF d conjI [OF u
          conjI [OF catalog_inv_catalog_XY conjI [OF one
            conjI [OF catalog_inv_CatalogNew two]]]]]]])
qed

subsection \<open>Subscribe requests\<close>




subsection \<open>Iterators\<close>

lemma SubscriptionRelease_after_acquire:
  assumes "subscriptions w a = Some s" and "0 < ref s"
  shows "SubscriptionRelease (Some a)
           (w\<lparr>subscriptions := (subscriptions w)(a \<mapsto> s\<lparr>ref := ref s + 1\<rparr>), trace := t\<rparr>) =
         Some (w\<lparr>trace := t\<rparr>)"
proof -
  have "(subscriptions w)(a \<mapsto> s) = subscriptions w"
    using assms(1) by (rule map_upd_triv)
  then show ?thesis
    using assms(2) by (simp add: SubscriptionRelease_def)
qed

lemma LSSubscriptionNext_out_of_range:
  "tokens iter = Some toks \<Longrightarrow> index iter + 1 < 0 \<or> int (length toks) \<le> index iter + 1 \<Longrightarrow>
   LSSubscriptionNext iter w = Some (None, iter\<lparr>index := index iter + 1\<rparr>, w)"
  by (auto simp: LSSubscriptionNext_def SubListGet_def Let_def)

lemma LSSubscriptionNext_gone:
  "tokens iter = Some toks \<Longrightarrow> 0 \<le> index iter + 1 \<Longrightarrow> index iter + 1 < int (length toks) \<Longrightarrow>
   token_map w (toks ! nat (index iter + 1)) = None \<Longrightarrow>
   LSSubscriptionNext iter w =
     Some (None, iter\<lparr>index := index iter + 1\<rparr>, w\<lparr>trace := trace w @ [MutexLock, MutexUnlock]\<rparr>)"
  by (simp add: LSSubscriptionNext_def SubListGet_def Let_def SubscriptionAcquire_absent)

lemma LSSubscriptionNext_found:
  assumes "tokens iter = Some toks" and "0 \<le> index iter + 1"
    and "index iter + 1 < int (length toks)"
    and "token_map w (toks ! nat (index iter + 1)) = Some a"
    and "subscriptions w a = Some s" and "0 < ref s"
  shows "LSSubscriptionNext iter w =
     Some (Some (message s),
           iter\<lparr>index := index iter + 1, seen_messages := message s # seen_messages iter\<rparr>,
           w\<lparr>trace := trace w @ [MutexLock, MutexUnlock, MessageRef (message s)]\<rparr>)"
  using assms
  by (simp add: LSSubscriptionNext_def SubListGet_def Let_def SubscriptionAcquire_present
      emit_def SubscriptionRelease_after_acquire)

lemma LSSubscriptionNext_null_snapshot:
  "tokens iter = None \<Longrightarrow> 0 \<le> index iter + 1 \<Longrightarrow> LSSubscriptionNext iter w = None"
  by (simp add: LSSubscriptionNext_def SubListGet_def Let_def)

text \<open>
  For an iterator that has a snapshot, in a well-formed catalog, \<open>LSSubscriptionNext\<close>
  returns with the cursor advanced by one and the snapshot as it was. When the new cursor
  is a position of the snapshot, the identifier there is looked up under the lock
  (\<open>SubscriptionAcquire\<close>): if it has a subscription, one more reference to its message is
  taken (\<open>MessageRef\<close>), the message is put in front of \<open>seen_messages\<close> and returned,
  and the subscription's count is back at its value; if it has none, the result is
  \<^verbatim>\<open>NULL\<close> and nothing is accumulated. Past the end of the snapshot the result is
  \<^verbatim>\<open>NULL\<close> and the catalog is not touched. In every case the catalog is as before.
\<close>

theorem LSSubscriptionNext_resolves_next_token:
  "catalog_inv w \<Longrightarrow> tokens iter = Some toks \<Longrightarrow>
   (\<exists>r iter' w'. LSSubscriptionNext iter w = Some (r, iter', w') \<and>
      index iter' = index iter + 1 \<and> tokens iter' = tokens iter \<and>
      catalog_state w' = catalog_state w \<and>
      (0 \<le> index iter + 1 \<and> index iter + 1 < int (length toks) \<longrightarrow>
         (case token_map w (toks ! nat (index iter + 1)) of
            None \<Rightarrow>
              r = None \<and> seen_messages iter' = seen_messages iter \<and>
              trace w' = trace w @ [MutexLock, MutexUnlock]
          | Some a \<Rightarrow>
              (\<exists>s. subscriptions w a = Some s \<and> r = Some (message s) \<and>
                 seen_messages iter' = message s # seen_messages iter \<and>
                 trace w' = trace w @ [MutexLock, MutexUnlock, MessageRef (message s)]))) \<and>
      (index iter + 1 < 0 \<or> int (length toks) \<le> index iter + 1 \<longrightarrow>
         r = None \<and> seen_messages iter' = seen_messages iter \<and> w' = w))"
proof -
  assume inv: "catalog_inv w" and snap: "tokens iter = Some toks"
  show ?thesis
  proof (cases "index iter + 1 < 0 \<or> int (length toks) \<le> index iter + 1")
    case True
    show ?thesis
      unfolding LSSubscriptionNext_out_of_range [OF snap True]
      using True snap by auto
  next
    case False
    then have range: "0 \<le> index iter + 1" "index iter + 1 < int (length toks)" by auto
    show ?thesis
    proof (cases "token_map w (toks ! nat (index iter + 1))")
      case None
      show ?thesis
        unfolding LSSubscriptionNext_gone [OF snap range None]
        using None False snap by (simp add: catalog_state_def)
    next
      case (Some a)
      from catalog_inv_object [OF inv Some] obtain s where
        s: "subscriptions w a = Some s" "0 < ref s" by blast
      show ?thesis
        unfolding LSSubscriptionNext_found [OF snap range Some s]
        using Some False snap s by (simp add: catalog_state_def)
    qed
  qed
qed

lemma LSSubscriptionAcquire_catalog_XY:
  "LSSubscriptionAcquire ''topicA'' catalog_XY =
     ((True, \<lparr>tokens = Some [''com.example.app.7'', ''com.example.viewer.3''],
              seen_messages = [], index = -1\<rparr>),
      catalog_XY\<lparr>trace := [MutexLock, MutexUnlock]\<rparr>)"
  by (simp add: LSSubscriptionAcquire_def Let_def CatalogGetSubList_unlocked_def SubListDup_def
      CatalogLock_def CatalogUnlock_def emit_def catalog_XY_def)

theorem LSSubscriptionNext_resolves_next_token_witness:
  "catalog_inv catalog_XY \<and>
   tokens \<lparr>tokens = Some [''com.example.app.7'', ''com.example.viewer.3''],
           seen_messages = [], index = -1\<rparr> =
     Some [''com.example.app.7'', ''com.example.viewer.3''] \<and>
   LSSubscriptionNext
     \<lparr>tokens = Some [''com.example.app.7'', ''com.example.viewer.3''],
      seen_messages = [], index = -1\<rparr> catalog_XY =
     Some (Some msgX,
           \<lparr>tokens = Some [''com.example.app.7'', ''com.example.viewer.3''],
            seen_messages = [msgX], index = 0\<rparr>,
           catalog_XY\<lparr>trace := [MutexLock, MutexUnlock, MessageRef msgX]\<rparr>) \<and>
   (\<exists>r iter' w'. LSSubscriptionNext
        \<lparr>tokens = Some [''com.example.gone.1''], seen_messages = [msgX], index = -1\<rparr>
        catalog_XY = Some (r, iter', w') \<and>
      r = None \<and> index iter' = 0 \<and> seen_messages iter' = [msgX])"
proof -
  define it :: LSSubscriptionIter where
    "it = \<lparr>tokens = Some [''com.example.app.7'', ''com.example.viewer.3''],
           seen_messages = [], index = -1\<rparr>"
  define gone :: LSSubscriptionIter where
    "gone = \<lparr>tokens = Some [''com.example.gone.1''], seen_messages = [msgX], index = -1\<rparr>"
  have snap: "tokens it = Some [''com.example.app.7'', ''com.example.viewer.3'']"
    by (simp add: it_def)
  have snap2: "tokens gone = Some [''com.example.gone.1'']"
    by (simp add: gone_def)
  from LSSubscriptionNext_resolves_next_token [OF catalog_inv_catalog_XY snap]
  obtain r iter' w' where
    n: "LSSubscriptionNext it catalog_XY = Some (r, iter', w')"
    and i: "index iter' = index it + 1" and t: "tokens iter' = tokens it"
    and c: "catalog_state w' = catalog_state catalog_XY"
    and f: "0 \<le> index it + 1 \<and>
         index it + 1 < int (length [''com.example.app.7'', ''com.example.viewer.3'']) \<longrightarrow>
         (case token_map catalog_XY
                 ([''com.example.app.7'', ''com.example.viewer.3''] ! nat (index it + 1)) of
            None \<Rightarrow>
              r = None \<and> seen_messages iter' = seen_messages it \<and>
              trace w' = trace catalog_XY @ [MutexLock, MutexUnlock]
          | Some a \<Rightarrow>
              (\<exists>s. subscriptions catalog_XY a = Some s \<and> r = Some (message s) \<and>
                 seen_messages iter' = message s # seen_messages it \<and>
                 trace w' = trace catalog_XY @ [MutexLock, MutexUnlock, MessageRef (message s)]))"
    by blast
  from f have "r = Some msgX \<and> seen_messages iter' = [msgX] \<and>
      trace w' = [MutexLock, MutexUnlock, MessageRef msgX]"
    by (simp add: it_def catalog_XY_def)
  moreover from i t have "index iter' = 0"
    "tokens iter' = Some [''com.example.app.7'', ''com.example.viewer.3'']"
    by (simp_all add: it_def)
  moreover from c have "w' = catalog_XY\<lparr>trace := trace w'\<rparr>"
    by (cases w') (simp add: catalog_state_def catalog_XY_def)
  ultimately have first: "LSSubscriptionNext it catalog_XY =
     Some (Some msgX,
           \<lparr>tokens = Some [''com.example.app.7'', ''com.example.viewer.3''],
            seen_messages = [msgX], index = 0\<rparr>,
           catalog_XY\<lparr>trace := [MutexLock, MutexUnlock, MessageRef msgX]\<rparr>)"
    using n by (cases iter') simp
  from LSSubscriptionNext_resolves_next_token [OF catalog_inv_catalog_XY snap2]
  obtain r2 iter2 w2 where
    n2: "LSSubscriptionNext gone catalog_XY = Some (r2, iter2, w2)"
    and i2: "index iter2 = index gone + 1"
    and f2: "0 \<le> index gone + 1 \<and> index gone + 1 < int (length [''com.example.gone.1'']) \<longrightarrow>
         (case token_map catalog_XY ([''com.example.gone.1''] ! nat (index gone + 1)) of
            None \<Rightarrow>
              r2 = None \<and> seen_messages iter2 = seen_messages gone \<and>
              trace w2 = trace catalog_XY @ [MutexLock, MutexUnlock]
          | Some a \<Rightarrow>
              (\<exists>s. subscriptions catalog_XY a = Some s \<and> r2 = Some (message s) \<and>
                 seen_messages iter2 = message s # seen_messages gone \<and>
                 trace w2 = trace catalog_XY @ [MutexLock, MutexUnlock, MessageRef (message s)]))"
    by blast
  from f2 have "r2 = None \<and> seen_messages iter2 = [msgX]"
    by (simp add: gone_def catalog_XY_def)
  with n2 i2 have second: "\<exists>r iter' w'. LSSubscriptionNext gone catalog_XY = Some (r, iter', w') \<and>
      r = None \<and> index iter' = 0 \<and> seen_messages iter' = [msgX]"
    by (simp add: gone_def)
  from catalog_inv_catalog_XY snap first second show ?thesis
    unfolding it_def gone_def by blast
qed

text \<open>
  C8 on the code. \<^verbatim>\<open>LSSubscriptionAcquire\<close> on a key that has no list gives an iterator
  whose snapshot is \<^verbatim>\<open>NULL\<close> (\<^verbatim>\<open>_SubListDup(NULL)\<close>), with the cursor at -1.
  \<^verbatim>\<open>LSSubscriptionHasNext\<close> is false on it; \<^verbatim>\<open>LSSubscriptionNext\<close> moves the cursor
  to 0 and does not return: \<^verbatim>\<open>_SubListGet\<close> reads \<^verbatim>\<open>tokens->len\<close> of the
  \<^verbatim>\<open>NULL\<close> snapshot.
\<close>

theorem LSSubscriptionNext_stops_on_null_snapshot:
  "LSSubscriptionAcquire ''topicA'' CatalogNew =
     ((True, \<lparr>tokens = None, seen_messages = [], index = -1\<rparr>),
      CatalogNew\<lparr>trace := [MutexLock, MutexUnlock]\<rparr>) \<and>
   \<not> LSSubscriptionHasNext \<lparr>tokens = None, seen_messages = [], index = -1\<rparr> \<and>
   LSSubscriptionNext \<lparr>tokens = None, seen_messages = [], index = -1\<rparr>
     (CatalogNew\<lparr>trace := [MutexLock, MutexUnlock]\<rparr>) = None"
proof -
  have acquire: "LSSubscriptionAcquire ''topicA'' CatalogNew =
     ((True, \<lparr>tokens = None, seen_messages = [], index = -1\<rparr>),
      CatalogNew\<lparr>trace := [MutexLock, MutexUnlock]\<rparr>)"
    by (simp add: LSSubscriptionAcquire_def CatalogGetSubList_unlocked_def SubListDup_def
        CatalogLock_def CatalogUnlock_def emit_def CatalogNew_def Let_def)
  have has_next: "\<not> LSSubscriptionHasNext \<lparr>tokens = None, seen_messages = [], index = -1\<rparr>"
    by (simp add: LSSubscriptionHasNext_def)
  have next_message: "LSSubscriptionNext \<lparr>tokens = None, seen_messages = [], index = -1\<rparr>
     (CatalogNew\<lparr>trace := [MutexLock, MutexUnlock]\<rparr>) = None"
    by (rule LSSubscriptionNext_null_snapshot) simp_all
  show ?thesis
    by (rule conjI [OF acquire conjI [OF has_next next_message]])
qed

subsection \<open>Replies\<close>

lemma live_subscribers_trace [simp]:
  "live_subscribers (w\<lparr>trace := t\<rparr>) toks = live_subscribers w toks"
  by (induction toks) (auto split: option.splits)

lemma LSSubscriptionReply_loop_result:
  assumes "\<forall>tok a. token_map w tok = Some a \<longrightarrow> subscriptions w a \<noteq> None"
  shows "LSSubscriptionReply_loop T toks payload w =
     Some (list_all (\<lambda>msg. LSMessageReply T msg payload) (live_subscribers w toks),
           w\<lparr>trace := trace w @
                map (\<lambda>msg. MessageReply msg payload)
                  (replied_to T payload (live_subscribers w toks))\<rparr>)"
  using assms
proof (induction toks arbitrary: w)
  case Nil
  show ?case by simp
next
  case (Cons tok rest)
  show ?case
  proof (cases "token_map w tok")
    case None
    with Cons show ?thesis by simp
  next
    case (Some a)
    with Cons.prems obtain subs where subs: "subscriptions w a = Some subs" by blast
    show ?thesis
    proof (cases "LSMessageReply T (message subs) payload")
      case False
      with Some subs show ?thesis by (simp add: emit_def)
    next
      case True
      define w1 where "w1 = w\<lparr>trace := trace w @ [MessageReply (message subs) payload]\<rparr>"
      have "\<forall>tok a. token_map w1 tok = Some a \<longrightarrow> subscriptions w1 a \<noteq> None"
        using Cons.prems by (simp add: w1_def)
      from Cons.IH [OF this]
      have "LSSubscriptionReply_loop T rest payload w1 =
          Some (list_all (\<lambda>msg. LSMessageReply T msg payload) (live_subscribers w rest),
           w\<lparr>trace := trace w @ MessageReply (message subs) payload #
                map (\<lambda>msg. MessageReply msg payload)
                  (replied_to T payload (live_subscribers w rest))\<rparr>)"
        by (simp add: w1_def)
      with Some subs True show ?thesis by (simp add: emit_def w1_def)
    qed
  qed
qed

lemma replied_to_all:
  "list_all (\<lambda>msg. LSMessageReply T msg payload) msgs \<Longrightarrow> replied_to T payload msgs = msgs"
  by (induction msgs) auto

lemma LSSubscriptionReply_no_list:
  "subscription_lists w key = None \<Longrightarrow>
   LSSubscriptionReply T key payload w =
     Some (True, w\<lparr>trace := trace w @ [MutexLock, MutexUnlock]\<rparr>)"
  by (simp add: LSSubscriptionReply_def Let_def CatalogGetSubList_unlocked_def
      CatalogLock_def CatalogUnlock_def emit_def)

lemma LSSubscriptionReply_list:
  assumes "\<forall>tok a. token_map w tok = Some a \<longrightarrow> subscriptions w a \<noteq> None"
    and "subscription_lists w key = Some toks"
  shows "LSSubscriptionReply T key payload w =
     Some (list_all (\<lambda>msg. LSMessageReply T msg payload) (live_subscribers w toks),
           w\<lparr>trace := trace w @ [MutexLock] @
                map (\<lambda>msg. MessageReply msg payload)
                  (replied_to T payload (live_subscribers w toks)) @ [MutexUnlock]\<rparr>)"
proof -
  define w1 where "w1 = w\<lparr>trace := trace w @ [MutexLock]\<rparr>"
  have "\<forall>tok a. token_map w1 tok = Some a \<longrightarrow> subscriptions w1 a \<noteq> None"
    using assms(1) by (simp add: w1_def)
  from LSSubscriptionReply_loop_result [OF this, of T toks payload]
  have "LSSubscriptionReply_loop T toks payload w1 =
     Some (list_all (\<lambda>msg. LSMessageReply T msg payload) (live_subscribers w toks),
           w\<lparr>trace := trace w @ MutexLock #
                map (\<lambda>msg. MessageReply msg payload)
                  (replied_to T payload (live_subscribers w toks))\<rparr>)"
    by (simp add: w1_def)
  then show ?thesis
    using assms(2)
    by (simp add: LSSubscriptionReply_def Let_def CatalogGetSubList_unlocked_def
        CatalogLock_def CatalogUnlock_def emit_def w1_def)
qed

lemma catalog_inv_objects:
  "catalog_inv w \<Longrightarrow> \<forall>tok a. token_map w tok = Some a \<longrightarrow> subscriptions w a \<noteq> None"
  using catalog_inv_object by fastforce

lemma distinct_prefix_distinct: "distinct (map (take 50) l) \<Longrightarrow> distinct l"
  by (simp only: distinct_map)

lemma live_subscribers_catalog_XY:
  "live_subscribers catalog_XY [''com.example.app.7'', ''com.example.viewer.3''] = [msgX, msgY]"
  by (simp add: catalog_XY_def)

lemma catalog_XY_topicA:
  "subscription_lists catalog_XY ''topicA'' = Some [''com.example.app.7'', ''com.example.viewer.3'']"
  by (simp add: catalog_XY_def)

lemma transport_X_unreachable_simps [simp]:
  "LSMessageReply transport_X_unreachable msg payload = (LSMessageAddress msg \<noteq> 100)"
  by (simp add: transport_X_unreachable_def)

text \<open>
  C7, as the claim states it, fails: with two subscribers under \<open>topicA\<close> and a transport
  on which only the reply to the first fails, \<open>LSSubscriptionReply\<close> returns false after
  that reply and sends nothing to the second subscriber.
\<close>

theorem LSSubscriptionReply_stops_at_failed_reply:
  "subscription_lists catalog_XY ''topicA'' =
     Some [''com.example.app.7'', ''com.example.viewer.3''] \<and>
   live_subscribers catalog_XY [''com.example.app.7'', ''com.example.viewer.3''] = [msgX, msgY] \<and>
   LSMessageReply transport_X_unreachable msgY ''{}'' \<and>
   LSSubscriptionReply transport_X_unreachable ''topicA'' ''{}'' catalog_XY =
     Some (False, catalog_XY\<lparr>trace := [MutexLock, MessageReply msgX ''{}'', MutexUnlock]\<rparr>)"
proof -
  have "LSSubscriptionReply transport_X_unreachable ''topicA'' ''{}'' catalog_XY =
     Some (False, catalog_XY\<lparr>trace := [MutexLock, MessageReply msgX ''{}'', MutexUnlock]\<rparr>)"
    unfolding LSSubscriptionReply_list
      [OF catalog_inv_objects [OF catalog_inv_catalog_XY] catalog_XY_topicA]
      live_subscribers_catalog_XY
    by (simp add: catalog_XY_def)
  then show ?thesis
    using catalog_XY_topicA live_subscribers_catalog_XY by simp
qed

text \<open>
  C7, amended. In a well-formed catalog \<open>LSSubscriptionReply\<close> returns. Without a list
  under the key it returns true and sends nothing. With a list, whose entries are
  pairwise distinct, it walks the list in order under the lock and replies once to the
  message of each entry that has a subscription, until a reply fails: the replies sent are
  \<open>replied_to\<close> of \<open>live_subscribers\<close>, the result is true exactly when every live
  subscriber's reply was sent, and then every live subscriber got exactly one reply.
  \<open>LSSubscriptionRespond\<close> is that on the public connection and, only when it returned
  true, that on the private connection, whose result it returns.
\<close>

theorem LSSubscriptionReply_delivers_until_failure:
  "catalog_inv w \<Longrightarrow> catalog_inv w2 \<Longrightarrow>
   (subscription_lists w key = None \<longrightarrow>
      LSSubscriptionReply T key payload w =
        Some (True, w\<lparr>trace := trace w @ [MutexLock, MutexUnlock]\<rparr>)) \<and>
   (\<forall>toks. subscription_lists w key = Some toks \<longrightarrow>
      distinct toks \<and>
      LSSubscriptionReply T key payload w =
        Some (list_all (\<lambda>msg. LSMessageReply T msg payload) (live_subscribers w toks),
              w\<lparr>trace := trace w @ [MutexLock] @
                   map (\<lambda>msg. MessageReply msg payload)
                     (replied_to T payload (live_subscribers w toks)) @ [MutexUnlock]\<rparr>) \<and>
      (list_all (\<lambda>msg. LSMessageReply T msg payload) (live_subscribers w toks) \<longrightarrow>
         replied_to T payload (live_subscribers w toks) = live_subscribers w toks)) \<and>
   (\<exists>r1 w'. LSSubscriptionReply T key payload w = Some (r1, w') \<and>
      (\<not> r1 \<longrightarrow> LSSubscriptionRespond T T2 (w, w2) key payload = Some (False, w', w2)) \<and>
      (r1 \<longrightarrow>
         (\<exists>r2 w2'. LSSubscriptionReply T2 key payload w2 = Some (r2, w2') \<and>
            LSSubscriptionRespond T T2 (w, w2) key payload = Some (r2, w', w2'))))"
proof -
  assume inv: "catalog_inv w" and inv2: "catalog_inv w2"
  note objs = catalog_inv_objects [OF inv]
  note objs2 = catalog_inv_objects [OF inv2]
  have none: "subscription_lists w key = None \<longrightarrow>
      LSSubscriptionReply T key payload w =
        Some (True, w\<lparr>trace := trace w @ [MutexLock, MutexUnlock]\<rparr>)"
    by (simp add: LSSubscriptionReply_no_list)
  have some: "distinct toks \<and>
      LSSubscriptionReply T key payload w =
        Some (list_all (\<lambda>msg. LSMessageReply T msg payload) (live_subscribers w toks),
              w\<lparr>trace := trace w @ [MutexLock] @
                   map (\<lambda>msg. MessageReply msg payload)
                     (replied_to T payload (live_subscribers w toks)) @ [MutexUnlock]\<rparr>) \<and>
      (list_all (\<lambda>msg. LSMessageReply T msg payload) (live_subscribers w toks) \<longrightarrow>
         replied_to T payload (live_subscribers w toks) = live_subscribers w toks)"
    if l: "subscription_lists w key = Some toks" for toks
  proof -
    have "distinct toks"
      using catalog_inv_lists [OF inv l] by (rule distinct_prefix_distinct)
    moreover note LSSubscriptionReply_list [OF objs l, of T payload]
    moreover have "list_all (\<lambda>msg. LSMessageReply T msg payload) (live_subscribers w toks) \<longrightarrow>
         replied_to T payload (live_subscribers w toks) = live_subscribers w toks"
      by (simp add: replied_to_all)
    ultimately show ?thesis by blast
  qed
  have total: "\<exists>r w'. LSSubscriptionReply U key payload v = Some (r, w')"
    if "\<forall>tok a. token_map v tok = Some a \<longrightarrow> subscriptions v a \<noteq> None" for U v
  proof (cases "subscription_lists v key")
    case None
    then show ?thesis by (auto simp: LSSubscriptionReply_no_list)
  next
    case (Some toks)
    show ?thesis by (auto simp: LSSubscriptionReply_list [OF that Some])
  qed
  from total [OF objs, of T] obtain r1 w' where
    r1: "LSSubscriptionReply T key payload w = Some (r1, w')" by blast
  from total [OF objs2, of T2] obtain r2 w2' where
    r2: "LSSubscriptionReply T2 key payload w2 = Some (r2, w2')" by blast
  have respond: "\<exists>r1 w'. LSSubscriptionReply T key payload w = Some (r1, w') \<and>
      (\<not> r1 \<longrightarrow> LSSubscriptionRespond T T2 (w, w2) key payload = Some (False, w', w2)) \<and>
      (r1 \<longrightarrow>
         (\<exists>r2 w2'. LSSubscriptionReply T2 key payload w2 = Some (r2, w2') \<and>
            LSSubscriptionRespond T T2 (w, w2) key payload = Some (r2, w', w2')))"
    using r1 r2 by (auto simp: LSSubscriptionRespond_def)
  from none some respond show ?thesis by blast
qed

theorem LSSubscriptionReply_delivers_until_failure_witness:
  "catalog_inv catalog_XY \<and> catalog_inv CatalogNew \<and>
   subscription_lists catalog_XY ''topicA'' =
     Some [''com.example.app.7'', ''com.example.viewer.3''] \<and>
   LSSubscriptionReply transport_up ''topicA'' ''{}'' catalog_XY =
     Some (True, catalog_XY\<lparr>trace :=
       [MutexLock, MessageReply msgX ''{}'', MessageReply msgY ''{}'', MutexUnlock]\<rparr>) \<and>
   subscription_lists catalog_XY ''topicC'' = None \<and>
   LSSubscriptionReply transport_up ''topicC'' ''{}'' catalog_XY =
     Some (True, catalog_XY\<lparr>trace := [MutexLock, MutexUnlock]\<rparr>) \<and>
   LSSubscriptionRespond transport_up transport_up (catalog_XY, CatalogNew) ''topicA'' ''{}'' =
     Some (True,
       catalog_XY\<lparr>trace :=
         [MutexLock, MessageReply msgX ''{}'', MessageReply msgY ''{}'', MutexUnlock]\<rparr>,
       CatalogNew\<lparr>trace := [MutexLock, MutexUnlock]\<rparr>)"
proof -
  note T = LSSubscriptionReply_delivers_until_failure
    [OF catalog_inv_catalog_XY catalog_inv_CatalogNew, of _ transport_up "''{}''" transport_up]
  have noC: "subscription_lists catalog_XY ''topicC'' = None"
    by (simp add: catalog_XY_def)
  have a: "LSSubscriptionReply transport_up ''topicA'' ''{}'' catalog_XY =
     Some (True, catalog_XY\<lparr>trace :=
       [MutexLock, MessageReply msgX ''{}'', MessageReply msgY ''{}'', MutexUnlock]\<rparr>)"
    using T [of "''topicA''", THEN conjunct2, THEN conjunct1, THEN spec, THEN mp,
             OF catalog_XY_topicA, THEN conjunct2, THEN conjunct1]
    by (simp add: live_subscribers_catalog_XY) (simp add: catalog_XY_def)
  have c: "LSSubscriptionReply transport_up ''topicC'' ''{}'' catalog_XY =
     Some (True, catalog_XY\<lparr>trace := [MutexLock, MutexUnlock]\<rparr>)"
    using T [of "''topicC''", THEN conjunct1, THEN mp, OF noC]
    by (simp add: catalog_XY_def)
  have n: "LSSubscriptionReply transport_up ''topicA'' ''{}'' CatalogNew =
     Some (True, CatalogNew\<lparr>trace := [MutexLock, MutexUnlock]\<rparr>)"
    by (simp add: LSSubscriptionReply_no_list CatalogNew_def)
  from T [of "''topicA''", THEN conjunct2, THEN conjunct2] a n
  have r: "LSSubscriptionRespond transport_up transport_up (catalog_XY, CatalogNew) ''topicA'' ''{}'' =
     Some (True,
       catalog_XY\<lparr>trace :=
         [MutexLock, MessageReply msgX ''{}'', MessageReply msgY ''{}'', MutexUnlock]\<rparr>,
       CatalogNew\<lparr>trace := [MutexLock, MutexUnlock]\<rparr>)"
    by auto
  from catalog_inv_catalog_XY catalog_inv_CatalogNew catalog_XY_topicA a noC c r show ?thesis
    by blast
qed

subsection \<open>The lock and the calls out of the catalog\<close>

lemma SubscriptionAcquire_dangling:
  "token_map w tok = Some a \<Longrightarrow> subscriptions w a = None \<Longrightarrow> SubscriptionAcquire tok w = None"
  by (simp add: SubscriptionAcquire_def Let_def)

lemma SubscriptionAcquire_dead:
  "token_map w tok = Some a \<Longrightarrow> subscriptions w a = Some s \<Longrightarrow> \<not> 0 < ref s \<Longrightarrow>
   SubscriptionAcquire tok w = None"
  by (simp add: SubscriptionAcquire_def Let_def)

lemma CatalogRemoveToken_trace:
  assumes "CatalogRemoveToken tok notify w = Some (r, w')"
  shows "\<exists>cancel freed. trace w' =
      trace w @ [MutexLock, MutexUnlock] @ cancel @
        (if r then [MutexLock, MutexUnlock, MutexLock, MutexUnlock] else []) @ freed \<and>
      (cancel = [] \<or> (\<exists>f msg ctx. cancel = [CancelFunction f msg ctx])) \<and>
      (\<forall>f. r \<and> notify \<and> cancel_function w = Some f \<longrightarrow> cancel \<noteq> []) \<and>
      (freed = [] \<or> (\<exists>msg. freed = [MessageUnref msg]) \<or>
         (\<exists>msg watch. freed = [MessageUnref msg, CallCancel watch]))"
proof (cases "token_map w tok")
  case None
  from assms show ?thesis
    unfolding CatalogRemoveToken_absent [OF None] by auto
next
  case (Some a)
  show ?thesis
  proof (cases "subscriptions w a")
    case None
    from assms show ?thesis
      by (simp add: CatalogRemoveToken_def SubscriptionAcquire_dangling [OF Some None])
  next
    case sub: (Some s)
    show ?thesis
    proof (cases "0 < ref s")
      case False
      from assms show ?thesis
        by (simp add: CatalogRemoveToken_def SubscriptionAcquire_dead [OF Some sub False])
    next
      case True
      from CatalogRemoveToken_present [OF Some sub True, of notify] assms
      have r: "r" and tr: "trace w' = trace w @ [MutexLock, MutexUnlock] @
       (case cancel_function w of
          None \<Rightarrow> []
        | Some f \<Rightarrow> if notify then [CancelFunction f (message s) (cancel_function_ctx w)] else []) @
       [MutexLock, MutexUnlock, MutexLock, MutexUnlock] @
       (if ref s = 1
        then MessageUnref (message s) #
               (if serverStatusWatch s \<noteq> 0 then [CallCancel (serverStatusWatch s)] else [])
        else [])"
        by auto
      define cancel where "cancel = (case cancel_function w of
          None \<Rightarrow> []
        | Some f \<Rightarrow> if notify then [CancelFunction f (message s) (cancel_function_ctx w)] else [])"
      define freed where "freed = (if ref s = 1
        then MessageUnref (message s) #
               (if serverStatusWatch s \<noteq> 0 then [CallCancel (serverStatusWatch s)] else [])
        else [])"
      have 1: "trace w' = trace w @ [MutexLock, MutexUnlock] @ cancel @
        (if r then [MutexLock, MutexUnlock, MutexLock, MutexUnlock] else []) @ freed"
        using tr r by (simp add: cancel_def freed_def)
      have 2: "cancel = [] \<or> (\<exists>f msg ctx. cancel = [CancelFunction f msg ctx])"
        by (auto simp: cancel_def split: option.splits)
      have 3: "\<forall>f. r \<and> notify \<and> cancel_function w = Some f \<longrightarrow> cancel \<noteq> []"
        by (auto simp: cancel_def)
      have 4: "freed = [] \<or> (\<exists>msg. freed = [MessageUnref msg]) \<or>
         (\<exists>msg watch. freed = [MessageUnref msg, CallCancel watch])"
        by (auto simp: freed_def)
      from 1 2 3 4 show ?thesis by blast
    qed
  qed
qed

lemma outside_lock_CatalogRemoveToken:
  assumes "cancel = [] \<or> (\<exists>f msg ctx. cancel = [CancelFunction f msg ctx])"
    and "freed = [] \<or> (\<exists>msg. freed = [MessageUnref msg]) \<or>
         (\<exists>msg watch. freed = [MessageUnref msg, CallCancel watch])"
  shows "outside_lock False ([MutexLock, MutexUnlock] @ cancel @
        (if r then [MutexLock, MutexUnlock, MutexLock, MutexUnlock] else []) @ freed)"
  using assms by auto

lemma LSSubscriptionReply_loop_trace:
  "LSSubscriptionReply_loop T toks payload w = Some (r, w') \<Longrightarrow>
   \<exists>msgs. trace w' = trace w @ map (\<lambda>msg. MessageReply msg payload) msgs"
proof (induction toks arbitrary: w)
  case Nil
  then show ?case by simp
next
  case (Cons tok rest)
  show ?case
  proof (cases "token_map w tok")
    case None
    with Cons show ?thesis by simp
  next
    case (Some a)
    with Cons.prems obtain subs where subs: "subscriptions w a = Some subs"
      by (cases "subscriptions w a") auto
    show ?thesis
    proof (cases "LSMessageReply T (message subs) payload")
      case False
      with Cons.prems Some subs
      have "trace w' = trace w @ map (\<lambda>msg. MessageReply msg payload) [message subs]"
        by (auto simp: emit_def)
      then show ?thesis by blast
    next
      case True
      with Cons.prems Some subs
      have "LSSubscriptionReply_loop T rest payload
              (emit (MessageReply (message subs) payload) w) = Some (r, w')"
        by simp
      from Cons.IH [OF this] obtain msgs where
        "trace w' = trace w @ map (\<lambda>msg. MessageReply msg payload) (message subs # msgs)"
        by auto
      then show ?thesis by blast
    qed
  qed
qed

lemma under_lock_replies:
  "under_lock True (map (\<lambda>msg. MessageReply msg payload) msgs @ evs) = under_lock True evs"
  by (induction msgs) auto

lemma LSSubscriptionReply_trace:
  assumes "LSSubscriptionReply T key payload w = Some (r, w')"
  shows "\<exists>msgs. trace w' =
     trace w @ [MutexLock] @ map (\<lambda>msg. MessageReply msg payload) msgs @ [MutexUnlock]"
proof (cases "subscription_lists w key")
  case None
  from assms have "trace w' = trace w @ [MutexLock] @ map (\<lambda>msg. MessageReply msg payload) [] @ [MutexUnlock]"
    unfolding LSSubscriptionReply_no_list [OF None] by auto
  then show ?thesis by blast
next
  case (Some toks)
  from assms Some obtain w2 where
    loop: "LSSubscriptionReply_loop T toks payload (CatalogLock w) = Some (r, w2)"
    and w': "w' = CatalogUnlock w2"
    by (auto simp: LSSubscriptionReply_def Let_def CatalogGetSubList_unlocked_def
          split: option.splits)
  from LSSubscriptionReply_loop_trace [OF loop] obtain msgs where
    "trace w2 = trace (CatalogLock w) @ map (\<lambda>msg. MessageReply msg payload) msgs"
    by blast
  with w' have "trace w' =
     trace w @ [MutexLock] @ map (\<lambda>msg. MessageReply msg payload) msgs @ [MutexUnlock]"
    by simp
  then show ?thesis by blast
qed

lemma CatalogRemoveToken_events:
  assumes "CatalogRemoveToken tok notify w = Some (r, w')"
  shows "(\<not> r \<and> token_map w tok = None \<and> trace w' = trace w @ [MutexLock, MutexUnlock]) \<or>
     (r \<and> (\<exists>a s. token_map w tok = Some a \<and> subscriptions w a = Some s \<and>
        trace w' = trace w @ [MutexLock, MutexUnlock] @
          (case cancel_function w of
             None \<Rightarrow> []
           | Some f \<Rightarrow>
               if notify then [CancelFunction f (message s) (cancel_function_ctx w)] else []) @
          [MutexLock, MutexUnlock, MutexLock, MutexUnlock] @
          (if ref s = 1
           then MessageUnref (message s) #
                  (if serverStatusWatch s \<noteq> 0 then [CallCancel (serverStatusWatch s)] else [])
           else [])))"
proof (cases "token_map w tok")
  case None
  from assms show ?thesis
    unfolding CatalogRemoveToken_absent [OF None] using None by auto
next
  case (Some a)
  show ?thesis
  proof (cases "subscriptions w a")
    case None
    from assms show ?thesis
      by (simp add: CatalogRemoveToken_def SubscriptionAcquire_dangling [OF Some None])
  next
    case sub: (Some s)
    show ?thesis
    proof (cases "0 < ref s")
      case False
      from assms show ?thesis
        by (simp add: CatalogRemoveToken_def SubscriptionAcquire_dead [OF Some sub False])
    next
      case True
      from CatalogRemoveToken_present [OF Some sub True, of notify] assms
      have r: "r" and tr: "trace w' = trace w @ [MutexLock, MutexUnlock] @
       (case cancel_function w of
          None \<Rightarrow> []
        | Some f \<Rightarrow> if notify then [CancelFunction f (message s) (cancel_function_ctx w)] else []) @
       [MutexLock, MutexUnlock, MutexLock, MutexUnlock] @
       (if ref s = 1
        then MessageUnref (message s) #
               (if serverStatusWatch s \<noteq> 0 then [CallCancel (serverStatusWatch s)] else [])
        else [])"
        by auto
      from r Some sub tr show ?thesis by blast
    qed
  qed
qed

text \<open>
  C6, as the claim states it, fails for the replies: \<open>LSSubscriptionReply\<close> to \<open>topicA\<close>
  sends both replies between its \<open>MutexLock\<close> and its \<open>MutexUnlock\<close>.
\<close>

theorem LSSubscriptionReply_replies_inside_lock:
  "LSSubscriptionReply transport_up ''topicA'' ''{}'' catalog_XY =
     Some (True, catalog_XY\<lparr>trace :=
       [MutexLock, MessageReply msgX ''{}'', MessageReply msgY ''{}'', MutexUnlock]\<rparr>) \<and>
   \<not> outside_lock False
       [MutexLock, MessageReply msgX ''{}'', MessageReply msgY ''{}'', MutexUnlock]"
proof -
  have "LSSubscriptionReply transport_up ''topicA'' ''{}'' catalog_XY =
     Some (True, catalog_XY\<lparr>trace :=
       [MutexLock, MessageReply msgX ''{}'', MessageReply msgY ''{}'', MutexUnlock]\<rparr>)"
    unfolding LSSubscriptionReply_list
      [OF catalog_inv_objects [OF catalog_inv_catalog_XY] catalog_XY_topicA]
      live_subscribers_catalog_XY
    by (simp add: catalog_XY_def)
  then show ?thesis by simp
qed

text \<open>
  C6, amended. The events of one \<open>CatalogRemoveToken\<close> are: the \<open>MutexLock\<close> and
  \<open>MutexUnlock\<close> of the lookup; then the call of the cancel function with the message of
  the subscription, exactly when the identifier was found, \<open>notify\<close> is set and a function
  is registered; then, when the identifier was found, the \<open>MutexLock\<close> and \<open>MutexUnlock\<close>
  around the change of the lists and those around the change of \<open>token_map\<close>; then what
  freeing the subscription calls. So the cancel function is called after the lookup has
  released the mutex and before the indexes are locked, while the mutex is not held. The
  events of one \<open>LSSubscriptionReply\<close> are one \<open>MutexLock\<close>, the replies, one
  \<open>MutexUnlock\<close>: every reply is sent while the mutex is held.
\<close>

theorem cancel_between_locks_replies_under_lock:
  "(CatalogRemoveToken tok notify w = Some (r, w') \<longrightarrow>
      (\<exists>cancel freed.
         trace w' = trace w @ [MutexLock, MutexUnlock] @ cancel @
           (if r then [MutexLock, MutexUnlock, MutexLock, MutexUnlock] else []) @ freed \<and>
         (\<forall>f. r \<and> notify \<and> cancel_function w = Some f \<longrightarrow>
            (\<exists>a s. token_map w tok = Some a \<and> subscriptions w a = Some s \<and>
               cancel = [CancelFunction f (message s) (cancel_function_ctx w)])) \<and>
         (\<not> r \<or> \<not> notify \<or> cancel_function w = None \<longrightarrow> cancel = []) \<and>
         (freed = [] \<or> (\<exists>msg. freed = [MessageUnref msg]) \<or>
            (\<exists>msg watch. freed = [MessageUnref msg, CallCancel watch])) \<and>
         outside_lock False
           ([MutexLock, MutexUnlock] @ cancel @
            (if r then [MutexLock, MutexUnlock, MutexLock, MutexUnlock] else []) @ freed))) \<and>
   (LSSubscriptionReply T key payload v = Some (r2, v') \<longrightarrow>
      (\<exists>msgs. trace v' =
          trace v @ [MutexLock] @ map (\<lambda>msg. MessageReply msg payload) msgs @ [MutexUnlock] \<and>
        under_lock False
          ([MutexLock] @ map (\<lambda>msg. MessageReply msg payload) msgs @ [MutexUnlock])))"
proof -
  have remove: "\<exists>cancel freed.
         trace w' = trace w @ [MutexLock, MutexUnlock] @ cancel @
           (if r then [MutexLock, MutexUnlock, MutexLock, MutexUnlock] else []) @ freed \<and>
         (\<forall>f. r \<and> notify \<and> cancel_function w = Some f \<longrightarrow>
            (\<exists>a s. token_map w tok = Some a \<and> subscriptions w a = Some s \<and>
               cancel = [CancelFunction f (message s) (cancel_function_ctx w)])) \<and>
         (\<not> r \<or> \<not> notify \<or> cancel_function w = None \<longrightarrow> cancel = []) \<and>
         (freed = [] \<or> (\<exists>msg. freed = [MessageUnref msg]) \<or>
            (\<exists>msg watch. freed = [MessageUnref msg, CallCancel watch])) \<and>
         outside_lock False
           ([MutexLock, MutexUnlock] @ cancel @
            (if r then [MutexLock, MutexUnlock, MutexLock, MutexUnlock] else []) @ freed)"
    if rm: "CatalogRemoveToken tok notify w = Some (r, w')"
  proof -
    from CatalogRemoveToken_events [OF rm]
    consider (absent) "\<not> r" "trace w' = trace w @ [MutexLock, MutexUnlock]"
      | (present) a s where "r" "token_map w tok = Some a" "subscriptions w a = Some s"
          "trace w' = trace w @ [MutexLock, MutexUnlock] @
            (case cancel_function w of
               None \<Rightarrow> []
             | Some f \<Rightarrow>
                 if notify then [CancelFunction f (message s) (cancel_function_ctx w)] else []) @
            [MutexLock, MutexUnlock, MutexLock, MutexUnlock] @
            (if ref s = 1
             then MessageUnref (message s) #
                    (if serverStatusWatch s \<noteq> 0 then [CallCancel (serverStatusWatch s)] else [])
             else [])"
      by blast
    then show ?thesis
    proof cases
      case absent
      have 1: "trace w' = trace w @ [MutexLock, MutexUnlock] @ [] @
           (if r then [MutexLock, MutexUnlock, MutexLock, MutexUnlock] else []) @ []"
        using absent by simp
      have 2: "\<forall>f. r \<and> notify \<and> cancel_function w = Some f \<longrightarrow>
            (\<exists>a s. token_map w tok = Some a \<and> subscriptions w a = Some s \<and>
               [] = [CancelFunction f (message s) (cancel_function_ctx w)])"
        using absent by simp
      have 3: "\<not> r \<or> \<not> notify \<or> cancel_function w = None \<longrightarrow> ([] :: event list) = []"
        by simp
      have 4: "([] :: event list) = [] \<or> (\<exists>msg. [] = [MessageUnref msg]) \<or>
            (\<exists>msg watch. [] = [MessageUnref msg, CallCancel watch])"
        by simp
      have 5: "outside_lock False
           ([MutexLock, MutexUnlock] @ [] @
            (if r then [MutexLock, MutexUnlock, MutexLock, MutexUnlock] else []) @ [])"
        using absent by simp
      show ?thesis
        by (rule exI [of _ "[]"], rule exI [of _ "[]"])
           (rule conjI [OF 1 conjI [OF 2 conjI [OF 3 conjI [OF 4 5]]]])
    next
      case present
      define cancel where "cancel = (case cancel_function w of
               None \<Rightarrow> []
             | Some f \<Rightarrow>
                 if notify then [CancelFunction f (message s) (cancel_function_ctx w)] else [])"
      define freed where "freed = (if ref s = 1
             then MessageUnref (message s) #
                    (if serverStatusWatch s \<noteq> 0 then [CallCancel (serverStatusWatch s)] else [])
             else [])"
      have 1: "trace w' = trace w @ [MutexLock, MutexUnlock] @ cancel @
           (if r then [MutexLock, MutexUnlock, MutexLock, MutexUnlock] else []) @ freed"
        using present(1,4) by (simp add: cancel_def freed_def)
      have 2: "\<forall>f. r \<and> notify \<and> cancel_function w = Some f \<longrightarrow>
            (\<exists>a s. token_map w tok = Some a \<and> subscriptions w a = Some s \<and>
               cancel = [CancelFunction f (message s) (cancel_function_ctx w)])"
        using present(2,3) by (auto simp: cancel_def)
      have 3: "\<not> r \<or> \<not> notify \<or> cancel_function w = None \<longrightarrow> cancel = []"
        using present(1) by (auto simp: cancel_def split: option.splits)
      have c: "cancel = [] \<or> (\<exists>f msg ctx. cancel = [CancelFunction f msg ctx])"
        by (auto simp: cancel_def split: option.splits)
      have 4: "freed = [] \<or> (\<exists>msg. freed = [MessageUnref msg]) \<or>
            (\<exists>msg watch. freed = [MessageUnref msg, CallCancel watch])"
        by (auto simp: freed_def)
      have 5: "outside_lock False
           ([MutexLock, MutexUnlock] @ cancel @
            (if r then [MutexLock, MutexUnlock, MutexLock, MutexUnlock] else []) @ freed)"
        using c 4 by (rule outside_lock_CatalogRemoveToken)
      show ?thesis
        by (rule exI [of _ cancel], rule exI [of _ freed])
           (rule conjI [OF 1 conjI [OF 2 conjI [OF 3 conjI [OF 4 5]]]])
    qed
  qed
  have reply: "\<exists>msgs. trace v' =
          trace v @ [MutexLock] @ map (\<lambda>msg. MessageReply msg payload) msgs @ [MutexUnlock] \<and>
        under_lock False
          ([MutexLock] @ map (\<lambda>msg. MessageReply msg payload) msgs @ [MutexUnlock])"
    if "LSSubscriptionReply T key payload v = Some (r2, v')"
  proof -
    from LSSubscriptionReply_trace [OF that] obtain msgs where
      "trace v' =
        trace v @ [MutexLock] @ map (\<lambda>msg. MessageReply msg payload) msgs @ [MutexUnlock]"
      by blast
    moreover have "under_lock False
          ([MutexLock] @ map (\<lambda>msg. MessageReply msg payload) msgs @ [MutexUnlock])"
      by (simp add: under_lock_replies)
    ultimately show ?thesis by blast
  qed
  show ?thesis
    by (rule conjI [OF impI [OF remove] impI [OF reply]])
qed

theorem cancel_between_locks_replies_under_lock_witness:
  "(\<exists>w'. CatalogRemoveToken ''com.example.app.7'' True
            (snd (LSSubscriptionSetCancelFunction (Some 7) 9 catalog_XY)) = Some (True, w') \<and>
      trace w' = [MutexLock, MutexUnlock, CancelFunction 7 msgX 9,
                  MutexLock, MutexUnlock, MutexLock, MutexUnlock,
                  MessageUnref msgX, CallCancel 41] \<and>
      outside_lock False (trace w')) \<and>
   (\<exists>v'. LSSubscriptionReply transport_up ''topicA'' ''{}'' catalog_XY = Some (True, v') \<and>
      trace v' = [MutexLock, MessageReply msgX ''{}'', MessageReply msgY ''{}'', MutexUnlock] \<and>
      under_lock False (trace v'))"
proof -
  define w where "w = snd (LSSubscriptionSetCancelFunction (Some 7) 9 catalog_XY)"
  have tm: "token_map w ''com.example.app.7'' = Some 0"
    and sub: "subscriptions w 0 =
      Some \<lparr>message = msgX, keys = [''topicA'', ''topicB''], serverStatusWatch = 41, ref = 1\<rparr>"
    and cf: "cancel_function w = Some 7" "cancel_function_ctx w = 9" and tr0: "trace w = []"
    by (simp_all add: w_def LSSubscriptionSetCancelFunction_def catalog_XY_def)
  from CatalogRemoveToken_present [OF tm sub, of True] obtain w' where
    rm: "CatalogRemoveToken ''com.example.app.7'' True w = Some (True, w')"
    and tr: "trace w' = [MutexLock, MutexUnlock, CancelFunction 7 msgX 9,
                  MutexLock, MutexUnlock, MutexLock, MutexUnlock,
                  MessageUnref msgX, CallCancel 41]"
    by (auto simp: cf tr0)
  from cancel_between_locks_replies_under_lock [THEN conjunct1, THEN mp, OF rm]
  obtain cancel freed where
    t: "trace w' = trace w @ [MutexLock, MutexUnlock] @ cancel @
           (if True then [MutexLock, MutexUnlock, MutexLock, MutexUnlock] else []) @ freed"
    and o: "outside_lock False
           ([MutexLock, MutexUnlock] @ cancel @
            (if True then [MutexLock, MutexUnlock, MutexLock, MutexUnlock] else []) @ freed)"
    by (elim exE conjE)
  from o have out: "outside_lock False (trace w')"
    unfolding t tr0 by (simp only: append_Nil)
  have rp: "LSSubscriptionReply transport_up ''topicA'' ''{}'' catalog_XY =
     Some (True, catalog_XY\<lparr>trace :=
       [MutexLock, MessageReply msgX ''{}'', MessageReply msgY ''{}'', MutexUnlock]\<rparr>)"
    unfolding LSSubscriptionReply_list
      [OF catalog_inv_objects [OF catalog_inv_catalog_XY] catalog_XY_topicA]
      live_subscribers_catalog_XY
    by (simp add: catalog_XY_def)
  from cancel_between_locks_replies_under_lock [THEN conjunct2, THEN mp, OF rp]
  obtain msgs where
    "trace (catalog_XY\<lparr>trace :=
       [MutexLock, MessageReply msgX ''{}'', MessageReply msgY ''{}'', MutexUnlock]\<rparr>) =
     trace catalog_XY @ [MutexLock] @ map (\<lambda>msg. MessageReply msg ''{}'') msgs @ [MutexUnlock]"
    "under_lock False ([MutexLock] @ map (\<lambda>msg. MessageReply msg ''{}'') msgs @ [MutexUnlock])"
    by blast
  then have under: "under_lock False
      (trace (catalog_XY\<lparr>trace :=
         [MutexLock, MessageReply msgX ''{}'', MessageReply msgY ''{}'', MutexUnlock]\<rparr>))"
    by (simp add: catalog_XY_def)
  from rm tr out rp under show ?thesis
    unfolding w_def by simp
qed

subsection \<open>Where the two indexes and the lists go wrong\<close>

lemma long_token_simps [simp]:
  "take 50 long_token_2 = take 50 long_token_1"
  "long_token_1 \<noteq> long_token_2" "long_token_2 \<noteq> long_token_1"
  using long_tokens_collide by simp_all

lemma strncmp_long_tokens [simp]: "strncmp long_token_1 long_token_2 50 = 0"
  unfolding strncmp_eq_0_iff by (rule long_tokens_collide)

lemma CatalogAdd_msgA:
  "CatalogAdd transport_up ''topicA'' msgA CatalogNew =
     Some (True,
       \<lparr>token_map = [long_token_1 \<mapsto> 0],
        subscription_lists = [''topicA'' \<mapsto> [long_token_1]],
        cancel_function = None, cancel_function_ctx = 0,
        subscriptions = [0 \<mapsto> \<lparr>message = msgA, keys = [''topicA''],
                                 serverStatusWatch = 41, ref = 1\<rparr>],
        next_subscription = 1,
        trace = [MutexLock, MessageRef msgA,
                 Call registerServerStatus (serviceName_payload (LSMessageGetSender msgA))
                   (LSMessageGetToken msgA),
                 MutexUnlock]\<rparr>)"
proof -
  have tok: "token_map CatalogNew long_token_1 = None"
    by (simp add: CatalogNew_def)
  show ?thesis
    unfolding CatalogAdd_created [OF msg_simps(3) tok transport_simps(1)]
    by (simp add: CatalogNew_def Let_def)
qed

text \<open>
  C3 on the code. \<open>msgA\<close> and \<open>msgB\<close> carry the identifiers \<open>long_token_1\<close> and
  \<open>long_token_2\<close>, which differ only after their 50th character. After
  \<open>CatalogAdd ''topicA'' msgA\<close> and \<open>CatalogAdd ''topicA'' msgB\<close> on a new catalog, both
  returning true, the subscription of \<open>long_token_2\<close> has \<open>topicA\<close> in its key set, and
  the list of \<open>topicA\<close> is \<open>[long_token_1]\<close>: it does not hold \<open>long_token_2\<close>.
\<close>

theorem CatalogAdd_prefix_collision_breaks_index_consistency:
  "\<exists>w1 w2. CatalogAdd transport_up ''topicA'' msgA CatalogNew = Some (True, w1) \<and>
     CatalogAdd transport_up ''topicA'' msgB w1 = Some (True, w2) \<and>
     token_map w2 long_token_2 = Some 1 \<and>
     subscriptions w2 1 =
       Some \<lparr>message = msgB, keys = [''topicA''], serverStatusWatch = 41, ref = 1\<rparr> \<and>
     subscription_lists w2 ''topicA'' = Some [long_token_1] \<and>
     long_token_2 \<notin> set [long_token_1]"
proof -
  define w1 where "w1 =
       \<lparr>token_map = [long_token_1 \<mapsto> 0],
        subscription_lists = [''topicA'' \<mapsto> [long_token_1]],
        cancel_function = None, cancel_function_ctx = 0,
        subscriptions = [0 \<mapsto> \<lparr>message = msgA, keys = [''topicA''],
                                 serverStatusWatch = 41, ref = 1\<rparr>],
        next_subscription = 1,
        trace = [MutexLock, MessageRef msgA,
                 Call registerServerStatus (serviceName_payload (LSMessageGetSender msgA))
                   (LSMessageGetToken msgA),
                 MutexUnlock]\<rparr>"
  have a: "CatalogAdd transport_up ''topicA'' msgA CatalogNew = Some (True, w1)"
    unfolding w1_def by (rule CatalogAdd_msgA)
  have tok: "token_map w1 long_token_2 = None"
    by (simp add: w1_def)
  have "\<exists>w2. CatalogAdd transport_up ''topicA'' msgB w1 = Some (True, w2) \<and>
     token_map w2 long_token_2 = Some 1 \<and>
     subscriptions w2 1 =
       Some \<lparr>message = msgB, keys = [''topicA''], serverStatusWatch = 41, ref = 1\<rparr> \<and>
     subscription_lists w2 ''topicA'' = Some [long_token_1]"
    unfolding CatalogAdd_created [OF msg_simps(4) tok transport_simps(1)]
    by (simp add: w1_def Let_def)
  with a show ?thesis by auto
qed

text \<open>
  C1 on the code. With \<open>long_token_1\<close> already listed under \<open>topicA\<close>, the calls
  \<open>CatalogAdd ''topicA'' msgB\<close> and \<open>CatalogAdd ''topicB'' msgB\<close> both return true and
  leave one subscription for \<open>long_token_2\<close>, with both keys in its key set; the list of
  \<open>topicB\<close> holds \<open>long_token_2\<close>, the list of \<open>topicA\<close> does not.
\<close>

theorem CatalogAdd_prefix_collision_list_without_identifier:
  "\<exists>w1 w2 w3. CatalogAdd transport_up ''topicA'' msgA CatalogNew = Some (True, w1) \<and>
     CatalogAdd transport_up ''topicA'' msgB w1 = Some (True, w2) \<and>
     CatalogAdd transport_up ''topicB'' msgB w2 = Some (True, w3) \<and>
     token_map w3 long_token_2 = Some 1 \<and>
     subscriptions w3 1 =
       Some \<lparr>message = msgB, keys = [''topicA'', ''topicB''], serverStatusWatch = 41, ref = 1\<rparr> \<and>
     subscription_lists w3 ''topicB'' = Some [long_token_2] \<and>
     subscription_lists w3 ''topicA'' = Some [long_token_1] \<and>
     long_token_2 \<notin> set [long_token_1]"
proof -
  define w1 where "w1 =
       \<lparr>token_map = [long_token_1 \<mapsto> 0],
        subscription_lists = [''topicA'' \<mapsto> [long_token_1]],
        cancel_function = None, cancel_function_ctx = 0,
        subscriptions = [0 \<mapsto> \<lparr>message = msgA, keys = [''topicA''],
                                 serverStatusWatch = 41, ref = 1\<rparr>],
        next_subscription = 1,
        trace = [MutexLock, MessageRef msgA,
                 Call registerServerStatus (serviceName_payload (LSMessageGetSender msgA))
                   (LSMessageGetToken msgA),
                 MutexUnlock]\<rparr>"
  define w2 where "w2 = w1\<lparr>token_map := (token_map w1)(long_token_2 \<mapsto> next_subscription w1),
            subscription_lists :=
              (subscription_lists w1)(''topicA'' \<mapsto>
                 (let l = (case subscription_lists w1 ''topicA'' of None \<Rightarrow> [] | Some l \<Rightarrow> l)
                  in if SubListContains_loop l long_token_2 then l else l @ [long_token_2])),
            subscriptions := (subscriptions w1)(next_subscription w1 \<mapsto>
               \<lparr>message = msgB, keys = [''topicA''], serverStatusWatch = 41, ref = 1\<rparr>),
            next_subscription := next_subscription w1 + 1,
            trace := trace w1 @ [MutexLock, MessageRef msgB,
              Call registerServerStatus (serviceName_payload (LSMessageGetSender msgB))
                (LSMessageGetToken msgB),
              MutexUnlock]\<rparr>"
  have a: "CatalogAdd transport_up ''topicA'' msgA CatalogNew = Some (True, w1)"
    unfolding w1_def by (rule CatalogAdd_msgA)
  have tok: "token_map w1 long_token_2 = None"
    by (simp add: w1_def)
  have b: "CatalogAdd transport_up ''topicA'' msgB w1 = Some (True, w2)"
    unfolding w2_def by (rule CatalogAdd_created [OF msg_simps(4) tok transport_simps(1)])
  have tm2: "token_map w2 long_token_2 = Some 1"
    and sub2: "subscriptions w2 1 =
       Some \<lparr>message = msgB, keys = [''topicA''], serverStatusWatch = 41, ref = 1\<rparr>"
    and la2: "subscription_lists w2 ''topicA'' = Some [long_token_1]"
    and lb2: "subscription_lists w2 ''topicB'' = None"
    by (simp_all add: w2_def w1_def Let_def)
  have addr: "LSMessageAddress
      (message \<lparr>message = msgB, keys = [''topicA''], serverStatusWatch = 41, ref = 1\<rparr>) =
      LSMessageAddress msgB"
    by simp
  have "\<exists>w3. CatalogAdd transport_up ''topicB'' msgB w2 = Some (True, w3) \<and>
     token_map w3 long_token_2 = Some 1 \<and>
     subscriptions w3 1 =
       Some \<lparr>message = msgB, keys = [''topicA'', ''topicB''], serverStatusWatch = 41, ref = 1\<rparr> \<and>
     subscription_lists w3 ''topicB'' = Some [long_token_2] \<and>
     subscription_lists w3 ''topicA'' = Some [long_token_1]"
    unfolding CatalogAdd_known [OF msg_simps(4) tm2 sub2 addr]
    by (simp add: tm2 sub2 la2 lb2 Let_def)
  with a b show ?thesis by auto
qed

text \<open>
  C4 on the code. On a new catalog, \<open>CatalogAdd ''topicA'' msgX\<close> with a transport whose
  \<open>LSCall\<close> fails returns false and leaves the key \<open>topicA\<close> in \<open>subscription_lists\<close>
  with an empty list.
\<close>

theorem CatalogAdd_failed_leaves_empty_list:
  "CatalogAdd transport_down ''topicA'' msgX CatalogNew =
     Some (False,
       CatalogNew\<lparr>subscription_lists := [''topicA'' \<mapsto> []],
         trace := [MutexLock, MessageRef msgX,
                   Call registerServerStatus (serviceName_payload (LSMessageGetSender msgX))
                     (LSMessageGetToken msgX),
                   MessageUnref msgX, MutexUnlock]\<rparr>) \<and>
   subscription_lists CatalogNew ''topicA'' = None"
proof -
  have tok: "token_map CatalogNew ''com.example.app.7'' = None"
    by (simp add: CatalogNew_def)
  show ?thesis
    unfolding CatalogAdd_failed [OF msg_simps(1) tok transport_simps(2)]
    by (simp add: CatalogNew_def)
qed

lemma catalog_inv_after_colliding_adds:
  assumes "CatalogAdd transport_up ''topicA'' msgA CatalogNew = Some (True, w1)"
    and "CatalogAdd transport_up ''topicA'' msgB w1 = Some (True, w2)"
  shows "catalog_inv w2"
  by (rule catalog_inv_CatalogAdd [OF catalog_inv_CatalogAdd [OF catalog_inv_CatalogNew assms(1)]
        assms(2)])

text \<open>
  C2 on the code. \<open>long_token_1\<close> and \<open>long_token_2\<close> differ only after their 50th
  character. After \<open>CatalogAdd ''topicA'' msgA\<close> and \<open>CatalogAdd ''topicA'' msgB\<close> on a
  new catalog (the catalog is well-formed, by the lemma before the theorem),
  \<open>long_token_2\<close> is in \<open>token_map\<close> and the list of \<open>topicA\<close> is \<open>[long_token_1]\<close>. \<open>CatalogRemoveToken long_token_2\<close> then returns
  true and deletes the list of \<open>topicA\<close>, though the list without \<open>long_token_2\<close> is not
  empty: the entry it removed is \<open>long_token_1\<close>, whose subscription is still in
  \<open>token_map\<close> with \<open>topicA\<close> in its key set.
\<close>

theorem CatalogRemoveToken_prefix_collision_removes_other_identifier:
  "\<exists>w1 w2 w3. CatalogAdd transport_up ''topicA'' msgA CatalogNew = Some (True, w1) \<and>
     CatalogAdd transport_up ''topicA'' msgB w1 = Some (True, w2) \<and>
     token_map w2 long_token_2 = Some 1 \<and>
     subscriptions w2 1 =
       Some \<lparr>message = msgB, keys = [''topicA''], serverStatusWatch = 41, ref = 1\<rparr> \<and>
     subscription_lists w2 ''topicA'' = Some [long_token_1] \<and>
     remove1 long_token_2 [long_token_1] = [long_token_1] \<and>
     CatalogRemoveToken long_token_2 False w2 = Some (True, w3) \<and>
     subscription_lists w3 ''topicA'' = None \<and>
     token_map w3 long_token_1 = Some 0 \<and>
     subscriptions w3 0 =
       Some \<lparr>message = msgA, keys = [''topicA''], serverStatusWatch = 41, ref = 1\<rparr>"
proof -
  define w1 where "w1 =
       \<lparr>token_map = [long_token_1 \<mapsto> 0],
        subscription_lists = [''topicA'' \<mapsto> [long_token_1]],
        cancel_function = None, cancel_function_ctx = 0,
        subscriptions = [0 \<mapsto> \<lparr>message = msgA, keys = [''topicA''],
                                 serverStatusWatch = 41, ref = 1\<rparr>],
        next_subscription = 1,
        trace = [MutexLock, MessageRef msgA,
                 Call registerServerStatus (serviceName_payload (LSMessageGetSender msgA))
                   (LSMessageGetToken msgA),
                 MutexUnlock]\<rparr>"
  define w2 where "w2 = w1\<lparr>token_map := (token_map w1)(long_token_2 \<mapsto> next_subscription w1),
            subscription_lists :=
              (subscription_lists w1)(''topicA'' \<mapsto>
                 (let l = (case subscription_lists w1 ''topicA'' of None \<Rightarrow> [] | Some l \<Rightarrow> l)
                  in if SubListContains_loop l long_token_2 then l else l @ [long_token_2])),
            subscriptions := (subscriptions w1)(next_subscription w1 \<mapsto>
               \<lparr>message = msgB, keys = [''topicA''], serverStatusWatch = 41, ref = 1\<rparr>),
            next_subscription := next_subscription w1 + 1,
            trace := trace w1 @ [MutexLock, MessageRef msgB,
              Call registerServerStatus (serviceName_payload (LSMessageGetSender msgB))
                (LSMessageGetToken msgB),
              MutexUnlock]\<rparr>"
  have a: "CatalogAdd transport_up ''topicA'' msgA CatalogNew = Some (True, w1)"
    unfolding w1_def by (rule CatalogAdd_msgA)
  have tok: "token_map w1 long_token_2 = None"
    by (simp add: w1_def)
  have b: "CatalogAdd transport_up ''topicA'' msgB w1 = Some (True, w2)"
    unfolding w2_def by (rule CatalogAdd_created [OF msg_simps(4) tok transport_simps(1)])
  have tm2: "token_map w2 long_token_2 = Some 1"
    and sub2: "subscriptions w2 1 =
       Some \<lparr>message = msgB, keys = [''topicA''], serverStatusWatch = 41, ref = 1\<rparr>"
    and la2: "subscription_lists w2 ''topicA'' = Some [long_token_1]"
    and tm1: "token_map w2 long_token_1 = Some 0"
    and sub1: "subscriptions w2 0 =
       Some \<lparr>message = msgA, keys = [''topicA''], serverStatusWatch = 41, ref = 1\<rparr>"
    by (simp_all add: w2_def w1_def Let_def)
  have other: "remove1 long_token_2 [long_token_1] = [long_token_1]"
    by simp
  have live: "0 < ref \<lparr>message = msgB, keys = [''topicA''], serverStatusWatch = 41, ref = 1\<rparr>"
    by simp
  from CatalogRemoveToken_present [OF tm2 sub2 live, of False] obtain w3 where
    rm: "CatalogRemoveToken long_token_2 False w2 = Some (True, w3)"
    and tm: "token_map w3 = (token_map w2)(long_token_2 := None)"
    and sl: "subscription_lists w3 =
      CatalogRemoveToken_loop long_token_2
        (keys \<lparr>message = msgB, keys = [''topicA''], serverStatusWatch = 41, ref = 1\<rparr>)
        (subscription_lists w2)"
    and su: "subscriptions w3 =
       (if ref \<lparr>message = msgB, keys = [''topicA''], serverStatusWatch = 41, ref = 1\<rparr> = 1
        then (subscriptions w2)(1 := None)
        else (subscriptions w2)(1 \<mapsto>
          \<lparr>message = msgB, keys = [''topicA''], serverStatusWatch = 41, ref = 1\<rparr>
            \<lparr>ref := ref \<lparr>message = msgB, keys = [''topicA''], serverStatusWatch = 41, ref = 1\<rparr> - 1\<rparr>))"
    by (elim exE conjE)
  have la3: "subscription_lists w3 ''topicA'' = None"
    unfolding sl by (simp add: la2 SubListRemove_def SubListLen_def Let_def)
  have tm3: "token_map w3 long_token_1 = Some 0"
    unfolding tm by (simp add: tm1)
  have sub3: "subscriptions w3 0 =
       Some \<lparr>message = msgA, keys = [''topicA''], serverStatusWatch = 41, ref = 1\<rparr>"
    unfolding su by (simp add: sub1)
  show ?thesis
    by (rule exI [of _ w1], rule exI [of _ w2], rule exI [of _ w3])
       (rule conjI [OF a conjI [OF b conjI [OF tm2 conjI [OF sub2 conjI [OF la2
          conjI [OF other conjI [OF rm conjI [OF la3 conjI [OF tm3 sub3]]]]]]]]])
qed

end
